theory Spec2Isabelle
  imports Main
begin

section \<open>C values shared by all functions of tcp\_client.c\<close>

text \<open>
  A value of type \<open>string\<close> that stands for a \<^verbatim>\<open>char *\<close> argument is the sequence of
  bytes before the terminating NUL. Raw memory (the receive buffer) is a function from
  offsets to bytes together with the size of its allocation; every access of the model
  is checked against that size, and an access outside it ends the run as \<open>Undefined\<close>.
\<close>

abbreviation NUL :: char where "NUL \<equiv> CHR 0x00"
abbreviation LF :: char where "LF \<equiv> CHR 0x0A"
abbreviation SPC :: char where "SPC \<equiv> CHR 0x20"

definition INT_MAX :: int where "INT_MAX = 2147483647"
definition INT_MIN :: int where "INT_MIN = - 2147483648"

definition NUMBER_OF_ACTIONS :: nat where "NUMBER_OF_ACTIONS = 5"
definition PAYLOAD_MEMORY_BUFFER :: nat where "PAYLOAD_MEMORY_BUFFER = 10"
definition DEFAULT_BUFFER_SIZE :: int where "DEFAULT_BUFFER_SIZE = 1024"

text \<open>
  How a call ends: the function returns a value, the process leaves through
  \<^verbatim>\<open>exit(status)\<close>, or the behaviour is undefined (a write or read outside an
  allocation, a read of memory never written, signed overflow).
\<close>

datatype outcome = Returned int | Exited int | Undefined

definition EXIT_SUCCESS :: int where "EXIT_SUCCESS = 0"
definition EXIT_FAILURE :: int where "EXIT_FAILURE = 1"

definition isdigit :: "char \<Rightarrow> bool" where
  "isdigit c = (48 \<le> (of_char c :: nat) \<and> (of_char c :: nat) \<le> 57)"

text \<open>The C locale's white space: space, \<^verbatim>\<open>\t \n \v \f \r\<close>.\<close>

definition isspace :: "char \<Rightarrow> bool" where
  "isspace c = (c = SPC \<or> (9 \<le> (of_char c :: nat) \<and> (of_char c :: nat) \<le> 13))"

text \<open>\<^verbatim>\<open>strcmp\<close>: zero exactly on equal strings, else the sign of the first difference.\<close>

fun strcmp :: "string \<Rightarrow> string \<Rightarrow> int" where
  "strcmp [] [] = 0"
| "strcmp [] (y # ys) = - 1"
| "strcmp (x # xs) [] = 1"
| "strcmp (x # xs) (y # ys) =
     (if x = y then strcmp xs ys
      else if (of_char x :: nat) < of_char y then - 1 else 1)"

text \<open>\<^verbatim>\<open>strchr\<close> on a string: the offset of the first occurrence, if any.\<close>

fun strchr :: "string \<Rightarrow> char \<Rightarrow> nat option" where
  "strchr [] c = None"
| "strchr (x # xs) c = (if x = c then Some 0 else map_option Suc (strchr xs c))"

text \<open>
  \<^verbatim>\<open>atoi\<close>: optional white space, an optional sign, then the leading decimal digits.
  (Its callers here pass at most nine characters, so the value fits an \<^verbatim>\<open>int\<close>.)
\<close>

definition digit_val :: "char \<Rightarrow> int" where
  "digit_val c = int (of_char c) - 48"

fun atoi_digits :: "string \<Rightarrow> int \<Rightarrow> int" where
  "atoi_digits [] acc = acc"
| "atoi_digits (c # cs) acc =
     (if isdigit c then atoi_digits cs (10 * acc + digit_val c) else acc)"

definition atoi :: "string \<Rightarrow> int" where
  "atoi s =
     (case dropWhile isspace s of
        [] \<Rightarrow> 0
      | c # cs \<Rightarrow>
          if c = CHR ''-'' then - atoi_digits cs 0
          else if c = CHR ''+'' then atoi_digits cs 0
          else atoi_digits (c # cs) 0)"

text \<open>\<^verbatim>\<open>printf\<close>'s \<^verbatim>\<open>%d\<close>.\<close>

definition digit_char :: "nat \<Rightarrow> char" where
  "digit_char d = ''0123456789'' ! d"

function dec :: "nat \<Rightarrow> string" where
  "dec n = (if n < 10 then [digit_char n] else dec (n div 10) @ [digit_char (n mod 10)])"
  by pat_completeness auto
termination
  by (relation "measure (\<lambda>n. n)") auto

declare dec.simps [simp del]

definition sprintf_d :: "int \<Rightarrow> string" where
  "sprintf_d i = (if i < 0 then CHR ''-'' # dec (nat (- i)) else dec (nat i))"

text \<open>A \<^verbatim>\<open>size_t\<close> stored into an \<^verbatim>\<open>int\<close>: the low 32 bits, read as two's complement.\<close>

definition c_int :: "nat \<Rightarrow> int" where
  "c_int n = (let m = int (n mod 2 ^ 32) in if m < 2 ^ 31 then m else m - 2 ^ 32)"

section \<open>is\_valid\_action\<close>

definition actions :: "string list" where
  "actions = [''uppercase'', ''lowercase'', ''reverse'', ''shuffle'', ''random'']"

text \<open>The loop \<^verbatim>\<open>for (i = 0; i < NUMBER_OF_ACTIONS; i++) if (!strcmp(action, actions[i])) return true;\<close>\<close>

fun action_loop :: "string \<Rightarrow> string list \<Rightarrow> bool" where
  "action_loop action [] = False"
| "action_loop action (a # as) = (if strcmp action a = 0 then True else action_loop action as)"

definition is_valid_action :: "string \<Rightarrow> bool" where
  "is_valid_action action = action_loop action (take NUMBER_OF_ACTIONS actions)"

section \<open>tcp\_client\_get\_line\<close>

text \<open>
  The file is the list of lines \<^verbatim>\<open>getline\<close> will return, each with its newline (the last
  one possibly without). \<^verbatim>\<open>getline\<close> stores every byte of the line, a NUL byte too, and
  a NUL behind the last; \<^verbatim>\<open>strcmp\<close>, \<^verbatim>\<open>strchr\<close>, \<^verbatim>\<open>strlen\<close> and \<^verbatim>\<open>sscanf\<close> see the
  line as a C string, that is, up to its first NUL (\<open>cstr\<close> below). One pass of the loop
  body either goes on to the next line, or leaves the loop with an action and a message,
  or is undefined:
  \<^item> \<^verbatim>\<open>%s\<close> skips white space and stores the following run of non-white-space
    characters into \<^verbatim>\<open>*action\<close>, an allocation of \<open>p + 1\<close> bytes where \<open>p\<close> is the
    offset of the first space; when the line holds white space only, nothing is stored
    and \<^verbatim>\<open>is_valid_action\<close> reads memory that was never written;
  \<^item> the space of the format skips all white space, and \<^verbatim>\<open>%[^\n]\<close> stores the
    characters up to the newline (or the end of the C string) into \<^verbatim>\<open>*message\<close>, an
    allocation of \<^verbatim>\<open>strlen(first_space_addr + 1)\<close> bytes; when no character is left it
    stores nothing and the message stays unwritten (\<open>None\<close>).

  Both conversions store a terminating NUL behind the characters; a store that does not
  fit its allocation is undefined.
\<close>

datatype line_step = Skip | Accept string "string option" | Corrupt

definition cstr :: "string \<Rightarrow> string" where
  "cstr bytes = takeWhile (\<lambda>c. c \<noteq> NUL) bytes"

definition scan_line :: "string \<Rightarrow> line_step" where
  "scan_line line =
     (if strcmp (cstr line) [LF] = 0 \<or> (case line of [] \<Rightarrow> False | c # _ \<Rightarrow> c = SPC) then Skip
      else case strchr (cstr line) SPC of
        None \<Rightarrow> Skip
      | Some p \<Rightarrow>
          let after_ws = dropWhile isspace (cstr line);
              token = takeWhile (\<lambda>c. \<not> isspace c) after_ws;
              rest = dropWhile isspace (drop (length token) after_ws);
              msg = takeWhile (\<lambda>c. c \<noteq> LF) rest
          in if token = [] then Corrupt
             else if p + 1 < length token + 1 then Corrupt
             else if msg \<noteq> [] \<and> length (cstr line) - (p + 1) < length msg + 1 then Corrupt
             else if \<not> is_valid_action token then Skip
             else Accept token (if msg = [] then None else Some msg))"

datatype getline_result = EndOfFile | GotLine int string "string option" | GetLineUndefined

text \<open>
  The result and the lines left in the file. \<open>EndOfFile\<close> is the return value \<open>-1\<close>;
  \<open>GotLine n a m\<close> is the return value \<open>n\<close> (the characters \<^verbatim>\<open>getline\<close> read)
  with \<^verbatim>\<open>*action\<close> and \<^verbatim>\<open>*message\<close>.
\<close>

fun tcp_client_get_line :: "string list \<Rightarrow> getline_result \<times> string list" where
  "tcp_client_get_line [] = (EndOfFile, [])"
| "tcp_client_get_line (line # rest) =
     (case scan_line line of
        Skip \<Rightarrow> tcp_client_get_line rest
      | Accept action message \<Rightarrow> (GotLine (int (length line)) action message, rest)
      | Corrupt \<Rightarrow> (GetLineUndefined, rest))"






text \<open>Two action words differ only in case: unequal, and equal once letters are lowered.\<close>

definition tolower :: "char \<Rightarrow> char" where
  "tolower c =
     (case strchr ''ABCDEFGHIJKLMNOPQRSTUVWXYZ'' c of
        Some i \<Rightarrow> ''abcdefghijklmnopqrstuvwxyz'' ! i
      | None \<Rightarrow> c)"

definition differs_only_in_case :: "string \<Rightarrow> string \<Rightarrow> bool" where
  "differs_only_in_case a b = (a \<noteq> b \<and> map tolower a = map tolower b)"

subsection \<open>Facts about the string functions\<close>

lemma strcmp_eq: "strcmp a b = 0 \<longleftrightarrow> a = b"
  by (induction a b rule: strcmp.induct) auto

lemma strchr_None: "c \<notin> set l \<Longrightarrow> strchr l c = None"
  by (induction l) auto

lemma strchr_append_char: "c \<notin> set a \<Longrightarrow> strchr (a @ c # r) c = Some (length a)"
  by (induction a) auto

lemma cstr_id: "NUL \<notin> set l \<Longrightarrow> cstr l = l"
  by (auto simp: cstr_def takeWhile_eq_all_conv)


lemma isspace_SPC: "isspace SPC"
  by (simp add: isspace_def)

lemma isspace_LF: "isspace LF"
  by (simp add: isspace_def)

lemma action_loop_iff: "action_loop a as \<longleftrightarrow> a \<in> set as"
  by (induction as) (auto simp: strcmp_eq)

lemma is_valid_action_set: "is_valid_action a \<longleftrightarrow> a \<in> set actions"
  by (simp add: is_valid_action_def action_loop_iff NUMBER_OF_ACTIONS_def actions_def)

subsection \<open>One line through the loop body\<close>

lemma length_message_le:
  "length (takeWhile (\<lambda>c. c \<noteq> LF) (dropWhile isspace (r @ [LF]))) \<le> length r"
proof -
  let ?ys = "dropWhile isspace (r @ [LF])"
  have "?ys = [] \<or> (\<exists>zs. ?ys = zs @ [LF] \<and> length zs \<le> length r)"
  proof (induction r)
    case Nil
    then show ?case by (simp add: isspace_LF)
  next
    case (Cons x r)
    then show ?case by (cases "isspace x") auto
  qed
  then show ?thesis
  proof
    assume "?ys = []"
    then show ?thesis by simp
  next
    assume "\<exists>zs. ?ys = zs @ [LF] \<and> length zs \<le> length r"
    then obtain zs where zs: "?ys = zs @ [LF]" "length zs \<le> length r" by blast
    have "length (takeWhile (\<lambda>c. c \<noteq> LF) (zs @ [LF])) \<le> length zs"
      by (induction zs) auto
    with zs show ?thesis by simp
  qed
qed

lemma scan_line_wellformed:
  assumes "a \<noteq> []" and "\<forall>c \<in> set a. \<not> isspace c"
    and "NUL \<notin> set a" and "NUL \<notin> set r"
  shows "scan_line (a @ SPC # r @ [LF]) =
           (if is_valid_action a
            then Accept a (let m = takeWhile (\<lambda>c. c \<noteq> LF) (dropWhile isspace (r @ [LF]))
                           in if m = [] then None else Some m)
            else Skip)"
proof -
  let ?line = "a @ SPC # r @ [LF]"
  obtain x xs where a: "a = x # xs" using assms(1) by (cases a) auto
  have x: "\<not> isspace x" "x \<noteq> SPC" "x \<noteq> LF"
    using assms(2) a isspace_SPC isspace_LF by auto
  have nospc: "SPC \<notin> set a" using assms(2) isspace_SPC by auto
  have c1: "strcmp ?line [LF] \<noteq> 0" using x a by (simp add: strcmp_eq)
  have c2: "\<not> (case ?line of [] \<Rightarrow> False | c # _ \<Rightarrow> c = SPC)" using x a by simp
  have p: "strchr ?line SPC = Some (length a)" using nospc by (rule strchr_append_char)
  have dw: "dropWhile isspace ?line = ?line" using x a by simp
  have tok: "takeWhile (\<lambda>c. \<not> isspace c) ?line = a"
    using assms(2) isspace_SPC by (simp add: takeWhile_append)
  have rest: "dropWhile isspace (drop (length a) ?line) = dropWhile isspace (r @ [LF])"
    by (simp add: isspace_SPC)
  have len: "length ?line - (length a + 1) = length r + 1" by simp
  have c12: "(strcmp ?line [LF] = 0 \<or> (case ?line of [] \<Rightarrow> False | c # _ \<Rightarrow> c = SPC)) = False"
    using c1 c2 by blast
  have fits: "\<not> (length r + 1 < length (takeWhile (\<lambda>c. c \<noteq> LF) (dropWhile isspace (r @ [LF]))) + 1)"
    using length_message_le [of r] by simp
  have "NUL \<notin> set ?line" using assms(3,4) by simp
  then have cs: "cstr ?line = ?line" by (rule cstr_id)
  show ?thesis
    unfolding scan_line_def cs Let_def dw tok rest p c12 len
    using assms(1) fits by simp
qed






subsection \<open>Case variants of the action words\<close>

lemma upper_not_space: "\<forall>x \<in> set ''ABCDEFGHIJKLMNOPQRSTUVWXYZ''. \<not> isspace x"
  by (simp add: isspace_def)

lemma isspace_not_upper: "isspace c \<Longrightarrow> c \<notin> set ''ABCDEFGHIJKLMNOPQRSTUVWXYZ''"
  using upper_not_space by blast

lemma tolower_space: "isspace c \<Longrightarrow> tolower c = c"
proof -
  assume "isspace c"
  then have "strchr ''ABCDEFGHIJKLMNOPQRSTUVWXYZ'' c = None"
    by (intro strchr_None isspace_not_upper)
  then show ?thesis by (simp only: tolower_def option.case)
qed

lemma actions_lower: "lit \<in> set actions \<Longrightarrow> map tolower lit = lit"
  by (auto simp: actions_def tolower_def)

lemma actions_nospace: "lit \<in> set actions \<Longrightarrow> c \<in> set lit \<Longrightarrow> \<not> isspace c"
  by (auto simp: actions_def isspace_def)

lemma tolower_NUL: "tolower NUL = NUL"
  by (simp add: tolower_def)

lemma actions_nonul: "lit \<in> set actions \<Longrightarrow> NUL \<notin> set lit"
  by (auto simp: actions_def)

lemma case_variant_invalid:
  assumes "lit \<in> set actions" "differs_only_in_case a lit"
  shows "\<not> is_valid_action a" "a \<noteq> []" "\<forall>c \<in> set a. \<not> isspace c" "NUL \<notin> set a"
proof -
  from assms have ne: "a \<noteq> lit" and eq: "map tolower a = lit"
    by (auto simp: differs_only_in_case_def actions_lower)
  show "\<not> is_valid_action a"
  proof
    assume "is_valid_action a"
    then have "a \<in> set actions" by (simp add: is_valid_action_set)
    then have "map tolower a = a" by (rule actions_lower)
    with eq ne show False by simp
  qed
  show "a \<noteq> []" using eq assms(1) by (auto simp: actions_def)
  show "\<forall>c \<in> set a. \<not> isspace c"
  proof
    fix c assume c: "c \<in> set a"
    show "\<not> isspace c"
    proof
      assume s: "isspace c"
      then have "tolower c = c" by (rule tolower_space)
      then have "c \<in> set (map tolower a)" using c by force
      then show False using eq actions_nospace [OF assms(1)] s by auto
    qed
  qed
  show "NUL \<notin> set a"
  proof
    assume "NUL \<in> set a"
    then have "tolower NUL \<in> set (map tolower a)" by force
    then have "NUL \<in> set lit" using eq by (simp only: tolower_NUL)
    then show False using actions_nonul [OF assms(1)] by simp
  qed
qed

subsection \<open>The claims about the script reader\<close>




text \<open>
  The message is allocated \<^verbatim>\<open>malloc(strlen(first_space_addr + 1))\<close>: as many bytes as
  the line has behind its first space, with no byte for the terminator (the allocation
  for the action has its \<^verbatim>\<open>+ 1\<close>). Only the newline, which \<^verbatim>\<open>%[^\n]\<close> does not
  store, makes room for it. The last line of a script that lacks its newline therefore
  overruns the allocation, and so does a line with a NUL byte, which ends the C string
  before the newline.
\<close>

lemma get_line_last_line_without_newline:
  "tcp_client_get_line [''uppercase hello''] = (GetLineUndefined, [])"
  by (simp add: scan_line_def cstr_def isspace_def is_valid_action_set actions_def)

text \<open>
  C10 fails on the code. \<open>is_valid_action\<close> rejects \<^verbatim>\<open>UPPERCASE\<close>, and the line
  \<^verbatim>\<open>UPPERCASE hello\<close> with its newline is skipped; but when it is the last line of
  the script and the file does not end in a newline, the message is allocated
  \<^verbatim>\<open>strlen("hello")\<close> = 5 bytes and \<^verbatim>\<open>sscanf\<close> stores \<^verbatim>\<open>hello\<close> and its terminator,
  six bytes, before \<open>is_valid_action\<close> is reached: the behaviour is undefined. The
  same happens at the line \<^verbatim>\<open>UPPERCASE hel\<close>, NUL, \<^verbatim>\<open>lo\<close>, newline, which is not
  passed over for the valid line behind it.
\<close>

theorem get_line_case_variant_overruns:
  "differs_only_in_case ''UPPERCASE'' ''uppercase'' \<and> \<not> is_valid_action ''UPPERCASE'' \<and>
   tcp_client_get_line [''UPPERCASE hello'' @ [LF], ''uppercase hello'' @ [LF]] =
     (GotLine 16 ''uppercase'' (Some ''hello''), []) \<and>
   tcp_client_get_line [''UPPERCASE hello''] = (GetLineUndefined, []) \<and>
   cstr (''UPPERCASE hel'' @ NUL # ''lo'' @ [LF]) = ''UPPERCASE hel'' \<and>
   tcp_client_get_line [''UPPERCASE hel'' @ NUL # ''lo'' @ [LF], ''uppercase hello'' @ [LF]] =
     (GetLineUndefined, [''uppercase hello'' @ [LF]])"
  by (simp add: differs_only_in_case_def tolower_def scan_line_def cstr_def isspace_def
      is_valid_action_set actions_def)

section \<open>tcp\_client\_send\_request\<close>

text \<open>
  What \<^verbatim>\<open>sprintf(request, "%s %d %s", action, message_length, message)\<close> writes
  before its terminating NUL, with \<^verbatim>\<open>int message_length = strlen(message)\<close>.
\<close>

definition request_frame :: "string \<Rightarrow> string \<Rightarrow> string" where
  "request_frame action message =
     action @ [SPC] @ sprintf_d (c_int (length message)) @ [SPC] @ message"

text \<open>
  The request is written into \<^verbatim>\<open>malloc(payload_length)\<close>, where
  \<^verbatim>\<open>payload_length = strlen(action) + strlen(message) + PAYLOAD_MEMORY_BUFFER\<close>;
  \<open>None\<close> when the frame and its NUL do not fit, so that \<^verbatim>\<open>sprintf\<close> writes past the
  allocation. (The allocation itself is taken to succeed.)
\<close>

definition build_request :: "string \<Rightarrow> string \<Rightarrow> string option" where
  "build_request action message =
     (let payload_length = c_int (length action + length message + PAYLOAD_MEMORY_BUFFER);
          request = request_frame action message
      in if int (length request) + 1 \<le> payload_length then Some request else None)"

text \<open>
  The socket, seen from the sender: for each call of \<^verbatim>\<open>send\<close> in turn, either the
  call fails (\<open>-1\<close>) or the socket takes up to \<open>k\<close> of the bytes offered. The loop
  offers \<^verbatim>\<open>request_length - total_bytes_sent\<close> bytes starting at \<^verbatim>\<open>request\<close> itself
  on every pass. The result is how the call ends (\<open>None\<close>: still inside \<^verbatim>\<open>send\<close> when
  the listed events are used up) and the bytes put on the wire.
\<close>

datatype send_event = SendFails | Accepts nat

function send_loop ::
  "string \<Rightarrow> int \<Rightarrow> int \<Rightarrow> send_event list \<Rightarrow> string \<Rightarrow> outcome option \<times> string" where
  "send_loop request request_length total_bytes_sent [] wire =
     (if total_bytes_sent < request_length then (None, wire)
      else (Some (Returned EXIT_SUCCESS), wire))"
| "send_loop request request_length total_bytes_sent (ev # socket) wire =
     (if total_bytes_sent < request_length then
        (case ev of
           SendFails \<Rightarrow> (Some (Exited EXIT_FAILURE), wire)
         | Accepts k \<Rightarrow>
             let bytes_sent = min k (nat (request_length - total_bytes_sent))
             in send_loop request request_length (total_bytes_sent + int bytes_sent) socket
                  (wire @ take bytes_sent request))
      else (Some (Returned EXIT_SUCCESS), wire))"
  by pat_completeness auto
termination
  by (relation "measure (\<lambda>(request, request_length, total_bytes_sent, socket, wire). length socket)")
     auto

definition tcp_client_send_request ::
  "string \<Rightarrow> string \<Rightarrow> send_event list \<Rightarrow> outcome option \<times> string" where
  "tcp_client_send_request action message socket =
     (case build_request action message of
        None \<Rightarrow> (Some Undefined, [])
      | Some request \<Rightarrow> send_loop request (c_int (length request)) 0 socket [])"

subsection \<open>The request for \<^verbatim>\<open>uppercase hello\<close>\<close>

lemma frame_hello: "request_frame ''uppercase'' ''hello'' = ''uppercase 5 hello''"
  by (simp add: request_frame_def sprintf_d_def c_int_def dec.simps digit_char_def)

lemma build_hello: "build_request ''uppercase'' ''hello'' = Some ''uppercase 5 hello''"
  by (simp add: build_request_def frame_hello c_int_def PAYLOAD_MEMORY_BUFFER_def)

lemma send_loop_never_fails:
  "fst (send_loop request n t socket wire) \<noteq> Some (Returned EXIT_FAILURE)"
  by (induction socket arbitrary: t wire)
     (auto simp: EXIT_FAILURE_def EXIT_SUCCESS_def Let_def split: send_event.splits)

lemma dec_ten_million: "dec 10000000 = ''10000000''"
  by (simp add: dec.simps digit_char_def)

subsection \<open>The claims about the request sender\<close>

text \<open>
  C3 fails on the code. The frame for \<^verbatim>\<open>uppercase hello\<close> is \<^verbatim>\<open>uppercase 5 hello\<close>
  (17 bytes). When the socket takes 5 bytes of the first write, the second write offers
  the 12 bytes left to send but again from the start of the request, so the wire
  carries \<^verbatim>\<open>upper\<close> followed by \<^verbatim>\<open>uppercase 5 \<close>, and the call returns success.
\<close>

theorem send_request_partial_write_repeats_prefix:
  "request_frame ''uppercase'' ''hello'' = ''uppercase 5 hello'' \<and>
   tcp_client_send_request ''uppercase'' ''hello'' [Accepts 5, Accepts 12] =
     (Some (Returned EXIT_SUCCESS), ''upperuppercase 5 '')"
  by (simp add: tcp_client_send_request_def build_hello frame_hello c_int_def)

text \<open>
  C5 fails on the code. A failing write ends the process through \<^verbatim>\<open>exit(EXIT_FAILURE)\<close>
  with the bytes of earlier writes already on the wire; the caller gets no return
  value, and no run of \<open>tcp_client_send_request\<close> returns \<open>EXIT_FAILURE\<close>.
\<close>

theorem send_request_write_error_exits:
  "tcp_client_send_request ''uppercase'' ''hello'' [Accepts 5, SendFails] =
     (Some (Exited EXIT_FAILURE), ''upper'') \<and>
   (\<forall>action message socket.
      fst (tcp_client_send_request action message socket) \<noteq> Some (Returned EXIT_FAILURE))"
proof
  show "tcp_client_send_request ''uppercase'' ''hello'' [Accepts 5, SendFails] =
     (Some (Exited EXIT_FAILURE), ''upper'')"
    by (simp add: tcp_client_send_request_def build_hello c_int_def)
  show "\<forall>action message socket.
      fst (tcp_client_send_request action message socket) \<noteq> Some (Returned EXIT_FAILURE)"
    by (simp add: tcp_client_send_request_def send_loop_never_fails split: option.split)
qed

text \<open>
  C4 fails on the code at long messages. For a message of 10,000,000 bytes the frame
  has 10,000,019 bytes and needs 10,000,020 with its NUL, one more than the allocation
  of \<open>9 + 10,000,000 + PAYLOAD_MEMORY_BUFFER\<close> bytes: \<^verbatim>\<open>sprintf\<close> writes past it and
  no request is defined.
\<close>

theorem build_request_overruns_allocation:
  "is_valid_action ''uppercase'' \<and>
   length (request_frame ''uppercase'' (replicate 10000000 (CHR ''a''))) = 10000019 \<and>
   build_request ''uppercase'' (replicate 10000000 (CHR ''a'')) = None \<and>
   tcp_client_send_request ''uppercase'' (replicate 10000000 (CHR ''a'')) socket =
     (Some Undefined, [])"
proof -
  have 1: "length (request_frame ''uppercase'' (replicate 10000000 (CHR ''a''))) = 10000019"
    by (simp add: request_frame_def c_int_def sprintf_d_def dec_ten_million)
  have 2: "build_request ''uppercase'' (replicate 10000000 (CHR ''a'')) = None"
    unfolding build_request_def Let_def 1
    by (simp add: c_int_def PAYLOAD_MEMORY_BUFFER_def)
  have 3: "is_valid_action ''uppercase''"
    by (simp add: is_valid_action_set actions_def)
  show ?thesis
    using 1 2 3 by (simp add: tcp_client_send_request_def)
qed

section \<open>tcp\_client\_receive\_response\<close>

text \<open>
  The reassembly buffer is a block of memory (bytes by offset), its allocated size, and
  the count of bytes received; \<open>handled\<close> records, in order, the messages passed to
  \<^verbatim>\<open>handle_response\<close> so far. The callback is any function of that record: it is given
  the messages up to and including the current one and answers whether all responses
  have been handled. \<^verbatim>\<open>malloc\<close> and \<^verbatim>\<open>realloc\<close> do not initialise memory: \<open>heap i\<close> is
  the byte a fresh allocation happens to hold at offset \<open>i\<close>. (Allocations are taken
  to succeed.)
\<close>

type_synonym memory = "nat \<Rightarrow> char"
type_synonym handler = "string list \<Rightarrow> bool"

record receiver =
  buffer :: memory
  buffer_size :: int
  total_bytes_received :: int
  handled :: "string list"

text \<open>
  \<^verbatim>\<open>strchr(buffer, c)\<close> on memory that need not hold a NUL: it walks from offset \<open>i\<close>
  until it meets \<open>c\<close> or a NUL, and runs out of the allocation (\<open>n\<close> bytes left) when
  it meets neither.
\<close>

datatype scan = Found nat | NotFound | Overrun

fun strchr_mem :: "memory \<Rightarrow> nat \<Rightarrow> nat \<Rightarrow> char \<Rightarrow> scan" where
  "strchr_mem m i 0 c = Overrun"
| "strchr_mem m i (Suc n) c =
     (if m i = c then Found i
      else if m i = NUL then NotFound
      else strchr_mem m (Suc i) n c)"

text \<open>
  The \<open>n\<close> bytes at offset \<open>i\<close>; a write of \<open>bytes\<close> at an offset;
  \<^verbatim>\<open>memmove(buffer, buffer + k, n)\<close>; and \<^verbatim>\<open>realloc\<close>, which keeps the bytes below the old
  size.
\<close>

definition mem_bytes :: "memory \<Rightarrow> nat \<Rightarrow> nat \<Rightarrow> string" where
  "mem_bytes m i n = map m [i ..< i + n]"

definition write_mem :: "memory \<Rightarrow> nat \<Rightarrow> string \<Rightarrow> memory" where
  "write_mem m off bytes =
     (\<lambda>i. if off \<le> i \<and> i < off + length bytes then bytes ! (i - off) else m i)"

definition memmove_down :: "memory \<Rightarrow> nat \<Rightarrow> nat \<Rightarrow> memory" where
  "memmove_down m k n = (\<lambda>i. if i < n then m (i + k) else m i)"

definition realloc :: "memory \<Rightarrow> nat \<Rightarrow> memory \<Rightarrow> memory" where
  "realloc m old_size heap = (\<lambda>i. if i < old_size then m i else heap i)"

text \<open>
  One pass of the inner \<^verbatim>\<open>while (1)\<close>: it goes round again, or leaves the inner loop
  through a \<^verbatim>\<open>break\<close>, through \<^verbatim>\<open>all_done = 1; break\<close>, or by undefined behaviour:
  a scan past the allocation, a length prefix of ten or more characters (its terminator
  lands outside \<^verbatim>\<open>char_message_length[10]\<close>), or overflow of an \<^verbatim>\<open>int\<close>. The bytes
  copied out with \<^verbatim>\<open>strncpy\<close> reach the callback as a C string, so up to the first NUL.
\<close>

datatype exit = Break receiver | AllDone receiver | Fault

datatype step = Again receiver | Leave exit

definition decode_step :: "handler \<Rightarrow> memory \<Rightarrow> receiver \<Rightarrow> step" where
  "decode_step handle_response heap s =
     (case strchr_mem (buffer s) 0 (nat (buffer_size s)) SPC of
        Overrun \<Rightarrow> Leave Fault
      | NotFound \<Rightarrow> Leave (Break (s\<lparr>total_bytes_received := 0\<rparr>))
      | Found p \<Rightarrow>
          if \<not> isdigit (buffer s 0) then Leave (Break (s\<lparr>total_bytes_received := 0\<rparr>))
          else if 10 \<le> p then Leave Fault
          else
            let char_message_length = mem_bytes (buffer s) 0 p;
                message_length = atoi char_message_length
            in if buffer_size s - int p - 1 < message_length then
                 (if INT_MAX < buffer_size s * 2 then Leave Fault
                  else Leave (Break (s\<lparr>buffer := realloc (buffer s) (nat (buffer_size s)) heap,
                                          buffer_size := buffer_size s * 2\<rparr>)))
               else if total_bytes_received s < message_length then Leave (Break s)
               else
                 let message = takeWhile (\<lambda>c. c \<noteq> NUL)
                                 (mem_bytes (buffer s) (p + 1) (nat message_length));
                     s' = s\<lparr>handled := handled s @ [message]\<rparr>
                 in if handle_response (handled s') then Leave (AllDone s')
                    else
                      let bytes_read = int (length char_message_length) + message_length + 1
                      in if total_bytes_received s - bytes_read < INT_MIN then Leave Fault
                         else Again (s'\<lparr>buffer := memmove_down (buffer s) (nat bytes_read)
                                                    (nat (buffer_size s - bytes_read)),
                                         total_bytes_received :=
                                           total_bytes_received s - bytes_read\<rparr>))"

subsection \<open>The inner loop ends\<close>

text \<open>
  Every pass that goes round again lowers \<^verbatim>\<open>total_bytes_received\<close> by at least two and
  keeps it at or above \<^verbatim>\<open>INT_MIN\<close>, so the inner loop is a total function.
\<close>

lemma strchr_mem_Found:
  "strchr_mem m i n c = Found p \<Longrightarrow>
     i \<le> p \<and> p < i + n \<and> m p = c \<and> (\<forall>j. i \<le> j \<and> j < p \<longrightarrow> m j \<noteq> c \<and> m j \<noteq> NUL)"
proof (induction n arbitrary: i)
  case 0
  then show ?case by simp
next
  case (Suc n)
  show ?case
  proof (cases "m i = c")
    case True
    with Suc.prems show ?thesis by auto
  next
    case False
    with Suc.prems have nz: "m i \<noteq> NUL" and rec: "strchr_mem m (Suc i) n c = Found p"
      by (auto split: if_splits)
    from Suc.IH [OF rec] have ih: "Suc i \<le> p" "p < Suc i + n" "m p = c"
      "\<forall>j. Suc i \<le> j \<and> j < p \<longrightarrow> m j \<noteq> c \<and> m j \<noteq> NUL" by auto
    have "\<forall>j. i \<le> j \<and> j < p \<longrightarrow> m j \<noteq> c \<and> m j \<noteq> NUL"
    proof (intro allI impI)
      fix j assume j: "i \<le> j \<and> j < p"
      show "m j \<noteq> c \<and> m j \<noteq> NUL"
      proof (cases "j = i")
        case True
        then show ?thesis using False nz by simp
      next
        case False
        then have "Suc i \<le> j \<and> j < p" using j by simp
        then show ?thesis using ih(4) by blast
      qed
    qed
    with ih show ?thesis by simp
  qed
qed

lemma isdigit_not_special:
  "isdigit c \<Longrightarrow> \<not> isspace c \<and> c \<noteq> CHR ''-'' \<and> c \<noteq> CHR ''+'' \<and> c \<noteq> SPC \<and> c \<noteq> NUL"
  by (auto simp: isdigit_def isspace_def)

lemma digit_val_nonneg: "isdigit c \<Longrightarrow> 0 \<le> digit_val c \<and> digit_val c \<le> 9"
  by (auto simp: isdigit_def digit_val_def)

lemma atoi_digits_nonneg: "0 \<le> acc \<Longrightarrow> 0 \<le> atoi_digits cs acc"
proof (induction cs arbitrary: acc)
  case Nil
  then show ?case by simp
next
  case (Cons c cs)
  show ?case
  proof (cases "isdigit c")
    case True
    then have "0 \<le> 10 * acc + digit_val c"
      using Cons.prems digit_val_nonneg [of c] by simp
    then show ?thesis using True Cons.IH by simp
  next
    case False
    then show ?thesis using Cons.prems by simp
  qed
qed

lemma atoi_digit_first: "isdigit c \<Longrightarrow> atoi (c # cs) = atoi_digits (c # cs) 0"
  using isdigit_not_special [of c] by (simp add: atoi_def)

lemma atoi_nonneg: "isdigit c \<Longrightarrow> 0 \<le> atoi (c # cs)"
  by (simp only: atoi_digit_first atoi_digits_nonneg)

lemma mem_bytes_Suc: "mem_bytes m i (Suc n) = m i # mem_bytes m (Suc i) n"
  by (simp add: mem_bytes_def upt_rec)

lemma length_mem_bytes: "length (mem_bytes m i n) = n"
  by (simp add: mem_bytes_def)

lemma decode_step_Again:
  assumes "decode_step h heap s = Again s'"
  shows "INT_MIN \<le> total_bytes_received s' \<and> total_bytes_received s' < total_bytes_received s"
proof -
  from assms obtain p where p: "strchr_mem (buffer s) 0 (nat (buffer_size s)) SPC = Found p"
    by (auto simp: decode_step_def split: scan.splits)
  from assms p have d: "isdigit (buffer s 0)"
    by (auto simp: decode_step_def split: if_splits)
  from strchr_mem_Found [OF p] have sp: "buffer s p = SPC" by simp
  have "p \<noteq> 0"
  proof
    assume "p = 0"
    with sp have "buffer s 0 = SPC" by simp
    with d isdigit_not_special [of "buffer s 0"] show False by simp
  qed
  then obtain q where q: "p = Suc q" by (cases p) auto
  have "0 \<le> atoi (mem_bytes (buffer s) 0 p)"
    unfolding q mem_bytes_Suc using d by (rule atoi_nonneg)
  with assms p d show ?thesis
    by (auto simp: decode_step_def Let_def length_mem_bytes split: if_splits)
qed

function inner_loop :: "handler \<Rightarrow> memory \<Rightarrow> receiver \<Rightarrow> exit" where
  "inner_loop handle_response heap s =
     (case decode_step handle_response heap s of
        Again s' \<Rightarrow> inner_loop handle_response heap s'
      | Leave e \<Rightarrow> e)"
  by pat_completeness auto
termination
proof (relation "measure (\<lambda>(handle_response, heap, s). nat (total_bytes_received s - INT_MIN))")
  show "wf (measure (\<lambda>(handle_response, heap, s). nat (total_bytes_received s - INT_MIN)))"
    by simp
next
  fix handle_response :: handler and heap :: memory and s s' :: receiver
  assume "decode_step handle_response heap s = Again s'"
  from decode_step_Again [OF this]
  show "((handle_response, heap, s'), (handle_response, heap, s))
          \<in> measure (\<lambda>(handle_response, heap, s). nat (total_bytes_received s - INT_MIN))"
    by simp
qed

declare inner_loop.simps [simp del]

text \<open>
  The connection, seen from the receiver: what the peer will deliver, in order. An
  event is a failure of \<^verbatim>\<open>recv\<close> or a run of bytes that has arrived; \<^verbatim>\<open>recv\<close> takes
  at most \<open>len\<close> of them and leaves the rest for the next call (a negative \<open>len\<close> is a
  huge \<^verbatim>\<open>size_t\<close>). When nothing is left the peer has closed and \<^verbatim>\<open>recv\<close> returns 0.
  The result is the return value, the bytes written at the given address, and the
  connection afterwards.
\<close>

datatype recv_event = RecvFails | Data string

fun recv :: "recv_event list \<Rightarrow> int \<Rightarrow> int \<times> string \<times> recv_event list" where
  "recv [] len = (0, [], [])"
| "recv (RecvFails # conn) len = (- 1, [], conn)"
| "recv (Data bytes # conn) len =
     (if len < 0 \<or> int (length bytes) \<le> len then (int (length bytes), bytes, conn)
      else (len, take (nat len) bytes, Data (drop (nat len) bytes) # conn))"

fun pending :: "recv_event list \<Rightarrow> nat" where
  "pending [] = 0"
| "pending (RecvFails # conn) = Suc (pending conn)"
| "pending (Data bytes # conn) = Suc (length bytes + pending conn)"

lemma recv_pending:
  "recv conn len = (n, bytes, conn') \<Longrightarrow> n \<noteq> 0 \<Longrightarrow> pending conn' < pending conn"
  by (induction conn len rule: recv.induct) (auto split: if_splits)

text \<open>
  The outer \<^verbatim>\<open>while (1)\<close>. The bytes are written at \<^verbatim>\<open>buffer + total_bytes_received\<close>;
  a write below or beyond the allocation is undefined. The result is how the call ends
  and the receiver's last state.
\<close>

function receive_loop ::
  "handler \<Rightarrow> memory \<Rightarrow> receiver \<Rightarrow> recv_event list \<Rightarrow> outcome \<times> receiver" where
  "receive_loop handle_response heap s conn =
     (case recv conn (buffer_size s - total_bytes_received s) of
        (bytes_received, bytes, conn') \<Rightarrow>
          if bytes_received = - 1 then (Exited EXIT_FAILURE, s)
          else if bytes_received = 0 then (Returned EXIT_SUCCESS, s)
          else if total_bytes_received s < 0
                 \<or> buffer_size s < total_bytes_received s + bytes_received then (Undefined, s)
          else
            (case inner_loop handle_response heap
                    (s\<lparr>buffer := write_mem (buffer s) (nat (total_bytes_received s)) bytes,
                       total_bytes_received := total_bytes_received s + bytes_received\<rparr>) of
               Break s' \<Rightarrow> receive_loop handle_response heap s' conn'
             | AllDone s' \<Rightarrow> (Returned EXIT_SUCCESS, s')
             | Fault \<Rightarrow> (Undefined, s)))"
  by pat_completeness auto
termination
  apply (relation "measure (\<lambda>(handle_response, heap, s, conn). pending conn)")
   apply simp
  apply (auto dest: recv_pending [OF sym])
  done

declare receive_loop.simps [simp del]

definition tcp_client_receive_response ::
  "handler \<Rightarrow> memory \<Rightarrow> recv_event list \<Rightarrow> outcome \<times> receiver" where
  "tcp_client_receive_response handle_response heap conn =
     receive_loop handle_response heap
       \<lparr>buffer = heap, buffer_size = DEFAULT_BUFFER_SIZE, total_bytes_received = 0,
        handled = []\<rparr> conn"


text \<open>A fresh heap of zero bytes.\<close>

definition zero_heap :: memory where
  "zero_heap = (\<lambda>i. NUL)"

subsection \<open>Evaluating runs\<close>

lemma strchr_mem_numeral [simp]:
  "strchr_mem m i (numeral k) c =
     (if m i = c then Found i
      else if m i = NUL then NotFound
      else strchr_mem m (Suc i) (pred_numeral k) c)"
  by (simp add: numeral_eq_Suc)

lemmas run_simps = receive_loop.simps inner_loop.simps decode_step_def
  tcp_client_receive_response_def write_mem_def memmove_down_def realloc_def zero_heap_def
  isdigit_def mem_bytes_def atoi_def isspace_def digit_val_def Let_def INT_MIN_def INT_MAX_def
  upt_rec DEFAULT_BUFFER_SIZE_def EXIT_SUCCESS_def EXIT_FAILURE_def

subsection \<open>Facts about the length prefix and the capacity\<close>

lemma strchr_mem_Overrun:
  "(\<forall>j. i \<le> j \<and> j < i + n \<longrightarrow> m j \<noteq> c \<and> m j \<noteq> NUL) \<Longrightarrow> strchr_mem m i n c = Overrun"
  by (induction n arbitrary: i) auto

lemma atoi_digits_bound:
  "0 \<le> acc \<Longrightarrow> atoi_digits cs acc < (acc + 1) * 10 ^ length cs"
proof (induction cs arbitrary: acc)
  case Nil
  then show ?case by simp
next
  case (Cons c cs)
  show ?case
  proof (cases "isdigit c")
    case True
    let ?a = "10 * acc + digit_val c"
    from True have d: "0 \<le> digit_val c" "digit_val c \<le> 9"
      using digit_val_nonneg [of c] by auto
    then have a0: "0 \<le> ?a" using Cons.prems by simp
    have "atoi_digits cs ?a < (?a + 1) * 10 ^ length cs"
      using a0 by (rule Cons.IH)
    also have "\<dots> \<le> (10 * (acc + 1)) * 10 ^ length cs"
      using d by (intro mult_right_mono) auto
    also have "\<dots> = (acc + 1) * 10 ^ length (c # cs)"
      by simp
    finally show ?thesis using True by simp
  next
    case False
    have "acc < acc + 1" by simp
    also have "acc + 1 \<le> (acc + 1) * 10 ^ length (c # cs)"
    proof -
      have "(1::int) \<le> 10 ^ length (c # cs)" by (rule one_le_power) simp
      then have "(acc + 1) * 1 \<le> (acc + 1) * 10 ^ length (c # cs)"
        using Cons.prems by (intro mult_left_mono) auto
      then show ?thesis by simp
    qed
    finally show ?thesis using False by simp
  qed
qed

lemma atoi_prefix_bound:
  assumes "isdigit (m 0)" "0 < p" "p < 10"
  shows "0 \<le> atoi (mem_bytes m 0 p)" "atoi (mem_bytes m 0 p) < 1000000000"
proof -
  from assms(2) obtain q where q: "p = Suc q" by (cases p) auto
  have eq: "atoi (mem_bytes m 0 p) = atoi_digits (mem_bytes m 0 p) 0"
    unfolding q mem_bytes_Suc using assms(1) by (rule atoi_digit_first)
  show "0 \<le> atoi (mem_bytes m 0 p)"
    unfolding eq by (rule atoi_digits_nonneg) simp
  have "atoi_digits (mem_bytes m 0 p) 0 < (0 + 1) * 10 ^ length (mem_bytes m 0 p)"
    by (rule atoi_digits_bound) simp
  also have "\<dots> = (10::int) ^ p" by (simp add: length_mem_bytes)
  also have "\<dots> \<le> 10 ^ 9" using assms(3) by (intro power_increasing) auto
  finally show "atoi (mem_bytes m 0 p) < 1000000000" unfolding eq by simp
qed

lemma decode_step_grows:
  assumes p: "strchr_mem (buffer s) 0 (nat (buffer_size s)) SPC = Found p"
    and d: "isdigit (buffer s 0)"
    and p10: "p < 10"
    and big: "buffer_size s - int p - 1 < atoi (mem_bytes (buffer s) 0 p)"
  shows "decode_step h heap s =
           Leave (Break (s\<lparr>buffer := realloc (buffer s) (nat (buffer_size s)) heap,
                           buffer_size := buffer_size s * 2\<rparr>))"
proof -
  from strchr_mem_Found [OF p] have sp: "buffer s p = SPC" by simp
  have "p \<noteq> 0"
  proof
    assume "p = 0"
    with sp have "buffer s 0 = SPC" by simp
    with d isdigit_not_special [of "buffer s 0"] show False by simp
  qed
  then have "0 < p" by simp
  from atoi_prefix_bound(2) [of "buffer s" p, OF d this p10] big
  have "\<not> INT_MAX < buffer_size s * 2"
    using p10 by (simp add: INT_MAX_def)
  then show ?thesis
    using p d p10 big by (simp add: decode_step_def Let_def)
qed

lemma decode_step_size:
  "decode_step h heap s = Again s' \<Longrightarrow> buffer_size s' = buffer_size s"
  "decode_step h heap s = Leave (AllDone s') \<Longrightarrow> buffer_size s' = buffer_size s"
  "decode_step h heap s = Leave (Break s') \<Longrightarrow> buffer_size s \<le> buffer_size s'"
proof -
  show "decode_step h heap s = Again s' \<Longrightarrow> buffer_size s' = buffer_size s"
    by (auto simp: decode_step_def Let_def split: scan.splits if_splits)
  show "decode_step h heap s = Leave (AllDone s') \<Longrightarrow> buffer_size s' = buffer_size s"
    by (auto simp: decode_step_def Let_def split: scan.splits if_splits)
  assume b: "decode_step h heap s = Leave (Break s')"
  show "buffer_size s \<le> buffer_size s'"
  proof (cases "strchr_mem (buffer s) 0 (nat (buffer_size s)) SPC")
    case (Found p)
    from strchr_mem_Found [OF Found] have "0 < buffer_size s" by auto
    with b Found show ?thesis
      by (auto simp: decode_step_def Let_def split: if_splits)
  next
    case NotFound
    with b show ?thesis by (auto simp: decode_step_def)
  next
    case Overrun
    with b show ?thesis by (auto simp: decode_step_def)
  qed
qed

lemma inner_loop_size:
  "inner_loop h heap s = Break s' \<or> inner_loop h heap s = AllDone s' \<Longrightarrow>
   buffer_size s \<le> buffer_size s'"
proof (induction h heap s rule: inner_loop.induct)
  case (1 h heap s)
  show ?case
  proof (cases "decode_step h heap s")
    case (Again t)
    then have "inner_loop h heap s = inner_loop h heap t"
      by (subst inner_loop.simps) simp
    with "1.prems" have "inner_loop h heap t = Break s' \<or> inner_loop h heap t = AllDone s'"
      by simp
    from "1.IH" [OF Again this] decode_step_size(1) [OF Again] show ?thesis by simp
  next
    case (Leave e)
    then have "inner_loop h heap s = e"
      by (subst inner_loop.simps) simp
    with "1.prems" have "e = Break s' \<or> e = AllDone s'"
      by simp
    with Leave decode_step_size(2,3) [of h heap s s'] show ?thesis by auto
  qed
qed

lemma receive_loop_size:
  "receive_loop h heap s conn = (out, s') \<Longrightarrow> buffer_size s \<le> buffer_size s'"
proof (induction h heap s conn arbitrary: out s' rule: receive_loop.induct)
  case (1 h heap s conn)
  obtain n bytes conn' where r: "recv conn (buffer_size s - total_bytes_received s) = (n, bytes, conn')"
    by (cases "recv conn (buffer_size s - total_bytes_received s)") auto
  let ?t = "s\<lparr>buffer := write_mem (buffer s) (nat (total_bytes_received s)) bytes,
               total_bytes_received := total_bytes_received s + n\<rparr>"
  show ?case
  proof (cases "n = - 1 \<or> n = 0 \<or> total_bytes_received s < 0 \<or> buffer_size s < total_bytes_received s + n")
    case True
    with "1.prems" r have "s' = s"
      by (subst (asm) receive_loop.simps) (auto split: if_splits)
    then show ?thesis by simp
  next
    case False
    show ?thesis
    proof (cases "inner_loop h heap ?t")
      case (Break u)
      with "1.prems" r False have "receive_loop h heap u conn' = (out, s')"
        by (subst (asm) receive_loop.simps) simp
      from "1.IH" [OF r [symmetric] refl _ _ _ Break this] False
      have "buffer_size u \<le> buffer_size s'" by simp
      moreover have "buffer_size ?t \<le> buffer_size u"
        using inner_loop_size [of h heap ?t u] Break by simp
      ultimately show ?thesis by simp
    next
      case (AllDone u)
      with "1.prems" r False have "s' = u"
        by (subst (asm) receive_loop.simps) simp
      moreover have "buffer_size ?t \<le> buffer_size u"
        using inner_loop_size [of h heap ?t u] AllDone by simp
      ultimately show ?thesis by simp
    next
      case Fault
      with "1.prems" r False have "s' = s"
        by (subst (asm) receive_loop.simps) simp
      then show ?thesis by simp
    qed
  qed
qed


subsection \<open>The claims about single steps of the reassembler\<close>

text \<open>
  C2 fails on the code. The completeness test compares \<^verbatim>\<open>total_bytes_received\<close>, which
  counts the length prefix and the space too, with the declared length alone. With
  the four bytes \<^verbatim>\<open>3 ab\<close> in a zeroed buffer the test \<open>4 < 3\<close> fails, so the callback
  is invoked at once with the short message \<^verbatim>\<open>ab\<close>; the byte \<^verbatim>\<open>c\<close> that arrives
  next is discarded and no three-byte message is ever delivered. Whatever the heap
  held, the message passed after the first read is \<^verbatim>\<open>ab\<close> followed by the byte
  that happened to lie behind the received data (shown with a callback that reports
  done at once, so that nothing else is scanned).
\<close>

theorem receive_short_frame_is_handled:
  "tcp_client_receive_response (\<lambda>tr. True) heap [Data ''3 ab''] =
     (Returned EXIT_SUCCESS,
      \<lparr>buffer = write_mem heap 0 ''3 ab'', buffer_size = 1024, total_bytes_received = 4,
       handled = [takeWhile (\<lambda>c. c \<noteq> NUL) [CHR ''a'', CHR ''b'', heap 4]]\<rparr>) \<and>
   handled (snd (tcp_client_receive_response (\<lambda>tr. False) zero_heap [Data ''3 ab''])) =
     [''ab''] \<and>
   fst (tcp_client_receive_response (\<lambda>tr. False) zero_heap [Data ''3 ab'', Data ''c'']) =
     Returned EXIT_SUCCESS \<and>
   handled (snd (tcp_client_receive_response (\<lambda>tr. False) zero_heap
                   [Data ''3 ab'', Data ''c''])) = [''ab'']"
proof -
  have four: "Suc (Suc (Suc (Suc 0))) = 4" by simp
  show ?thesis
    by (simp add: run_simps four)
qed

text \<open>
  C6. Whatever the state of the receiver (the buffer, the count, the responses handled
  so far), when \<^verbatim>\<open>recv\<close> returns 0 the loop ends and the call returns
  \<^verbatim>\<open>EXIT_SUCCESS\<close>, leaving the receiver as it was.
\<close>

theorem receive_zero_read_returns_success:
  assumes "fst (recv conn (buffer_size s - total_bytes_received s)) = 0"
  shows "receive_loop handle_response heap s conn = (Returned EXIT_SUCCESS, s)"
proof -
  obtain n bytes conn' where r: "recv conn (buffer_size s - total_bytes_received s) = (n, bytes, conn')"
    by (cases "recv conn (buffer_size s - total_bytes_received s)") auto
  with assms have "n = 0" by simp
  with r show ?thesis by (subst receive_loop.simps) simp
qed

text \<open>
  The theorem at a receiver that has handled two responses when the peer closes.
\<close>

theorem receive_zero_read_returns_success_witness:
  "fst (recv [] (1024 - 0)) = 0 \<and>
   receive_loop (\<lambda>tr. False) zero_heap
     \<lparr>buffer = zero_heap, buffer_size = 1024, total_bytes_received = 0,
      handled = [''abc'', ''hello'']\<rparr> [] =
     (Returned EXIT_SUCCESS,
      \<lparr>buffer = zero_heap, buffer_size = 1024, total_bytes_received = 0,
       handled = [''abc'', ''hello'']\<rparr>)"
  using receive_zero_read_returns_success [of "[]"
      "\<lparr>buffer = zero_heap, buffer_size = 1024, total_bytes_received = 0,
        handled = [''abc'', ''hello'']\<rparr>" "\<lambda>tr. False" zero_heap]
  by simp

text \<open>
  C7 fails on the code: the search for the space is \<^verbatim>\<open>strchr\<close> on the whole buffer,
  which is not NUL-terminated, and not a search of the valid region.
  \<^item> When the peer sends 1024 bytes \<^verbatim>\<open>x\<close> in one read, the valid region holds no
    space and its first byte is no digit, but the scan finds neither a space nor a NUL
    inside the allocation and reads past its end, whatever the heap held.
  \<^item> After the reads \<^verbatim>\<open>x y\<close> (discarded) and \<^verbatim>\<open>7\<close>, the valid region \<^verbatim>\<open>7\<close> holds
    no space, but the scan finds the stale space of the first read behind it: the
    count stays 1 instead of being reset to 0.
\<close>

theorem receive_unterminated_scan:
  "tcp_client_receive_response handle_response heap [Data (replicate 1024 (CHR ''x''))] =
     (Undefined, \<lparr>buffer = heap, buffer_size = 1024, total_bytes_received = 0, handled = []\<rparr>) \<and>
   SPC \<notin> set (mem_bytes (write_mem zero_heap 0 ''7 y'') 0 1) \<and>
   decode_step handle_response zero_heap
     \<lparr>buffer = write_mem zero_heap 0 ''7 y'', buffer_size = 1024, total_bytes_received = 1, handled = []\<rparr> =
     Leave (Break \<lparr>buffer = write_mem zero_heap 0 ''7 y'', buffer_size = 1024, total_bytes_received = 1, handled = []\<rparr>) \<and>
   total_bytes_received
     (snd (tcp_client_receive_response (\<lambda>tr. False) zero_heap [Data ''x y'', Data ''7''])) = 1"
proof (intro conjI)
  let ?m = "write_mem heap 0 (replicate 1024 (CHR ''x''))"
  have "\<forall>j. 0 \<le> j \<and> j < 0 + 1024 \<longrightarrow> ?m j \<noteq> SPC \<and> ?m j \<noteq> NUL"
    by (simp add: write_mem_def)
  then have "strchr_mem ?m 0 1024 SPC = Overrun"
    by (rule strchr_mem_Overrun)
  then have "decode_step handle_response heap
      \<lparr>buffer = ?m, buffer_size = 1024, total_bytes_received = 1024, handled = []\<rparr> = Leave Fault"
    by (simp add: decode_step_def del: strchr_mem_numeral)
  then have "inner_loop handle_response heap
      \<lparr>buffer = ?m, buffer_size = 1024, total_bytes_received = 1024, handled = []\<rparr> = Fault"
    by (subst inner_loop.simps) simp
  then show "tcp_client_receive_response handle_response heap [Data (replicate 1024 (CHR ''x''))] =
     (Undefined, \<lparr>buffer = heap, buffer_size = 1024, total_bytes_received = 0, handled = []\<rparr>)"
    unfolding tcp_client_receive_response_def
    by (subst receive_loop.simps) (simp add: DEFAULT_BUFFER_SIZE_def)
qed (simp_all add: run_simps)

text \<open>
  C8 fails on the code. The length prefix is copied into \<^verbatim>\<open>char char_message_length[10]\<close>,
  which has room for nine characters and their terminator, while an \<^verbatim>\<open>int\<close> length can
  have ten digits. When the peer sends \<^verbatim>\<open>1234567890 x\<close>, the declared length
  1234567890 exceeds the 1013 bytes left behind the prefix, but instead of doubling the
  capacity the code stores the terminator at \<^verbatim>\<open>char_message_length[10]\<close>, outside the
  array: the behaviour is undefined, whatever the heap held and whatever the callback
  is. With the nine-digit prefix of \<^verbatim>\<open>123456789 x\<close> the same path doubles the
  capacity to 2048.
\<close>

theorem receive_ten_digit_prefix_overruns:
  "1024 - 10 - 1 < atoi ''1234567890'' \<and>
   decode_step h heap
     \<lparr>buffer = write_mem heap 0 ''1234567890 x'', buffer_size = 1024,
      total_bytes_received = 12, handled = []\<rparr> = Leave Fault \<and>
   tcp_client_receive_response h heap [Data ''1234567890 x''] =
     (Undefined, \<lparr>buffer = heap, buffer_size = 1024, total_bytes_received = 0, handled = []\<rparr>) \<and>
   tcp_client_receive_response h heap [Data ''123456789 x''] =
     (Returned EXIT_SUCCESS,
      \<lparr>buffer = realloc (write_mem heap 0 ''123456789 x'') 1024 heap, buffer_size = 2048,
       total_bytes_received = 11, handled = []\<rparr>)"
  by (simp add: run_simps)

section \<open>Frames, read by read\<close>

text \<open>
  The response frame of the wire protocol for a payload: its length in decimal, one
  space, the payload.
\<close>

definition frame :: "string \<Rightarrow> string" where
  "frame payload = dec (length payload) @ SPC # payload"

text \<open>
  What a reassembler that decodes every frame passes to the callback: the payloads in
  order, up to and including the first at which the callback reports that all
  responses have been handled; \<open>tr\<close> are the messages passed before. \<open>stops\<close> tells
  whether the callback reports so at one of the payloads.
\<close>

fun stops :: "handler \<Rightarrow> string list \<Rightarrow> string list \<Rightarrow> bool" where
  "stops h tr [] = False"
| "stops h tr (m # ms) = (h (tr @ [m]) \<or> stops h (tr @ [m]) ms)"

fun deliveries :: "handler \<Rightarrow> string list \<Rightarrow> string list \<Rightarrow> string list" where
  "deliveries h tr [] = tr"
| "deliveries h tr (m # ms) = (if h (tr @ [m]) then tr @ [m] else deliveries h (tr @ [m]) ms)"

text \<open>
  The first \<open>B\<close> cells of memory, a buffer of that capacity, hold \<open>data\<close> followed by
  zero bytes only.
\<close>

definition fills :: "memory \<Rightarrow> nat \<Rightarrow> string \<Rightarrow> bool" where
  "fills m B data = (\<forall>i < B. m i = (if i < length data then data ! i else NUL))"

text \<open>
  Where a read may end. \<open>lands B ps n\<close>: the buffer has the capacity \<open>B\<close>, the frames
  of the payloads \<open>ps\<close> are still to be decoded, and the buffer holds their first \<open>n\<close>
  bytes, that is, whole frames followed by nothing or by the first bytes of one more
  frame. The result is the capacity with which the inner loop is left, the payloads
  whose frames are not complete, and the number of bytes held of the first of them (its
  length prefix and space counted). It is defined when
  \<^item> the bytes held end with a frame; or they end inside a frame, behind the space of
    its length prefix, and either the frame is longer than the capacity (there the
    code doubles the capacity and goes to the next read), or fewer bytes are held than
    the declared length of the payload (there the test
    \<^verbatim>\<open>total_bytes_received < message_length\<close> makes the code wait for the next read);
  \<^item> and whenever a whole frame stands at the front of the buffer, the bytes held and
    the length of that frame together are at most the capacity (then \<^verbatim>\<open>memmove\<close>
    leaves no byte of the frame behind in the buffer; so it is while the buffer is
    never more than half full), or that frame is the last of all and alone in the
    buffer.

  \<open>reads_wait B ps k reads\<close>: the reads deliver, byte for byte, what is left of the
  frames of \<open>ps\<close> when \<open>k\<close> bytes of them are in a buffer of capacity \<open>B\<close>; no read is
  empty or larger than the room left in the buffer, every read ends where \<open>lands\<close> is
  defined, and the last read ends a frame. \<open>capacity B ps k reads\<close> is the capacity
  that the buffer has after these reads.
\<close>

fun lands :: "nat \<Rightarrow> string list \<Rightarrow> nat \<Rightarrow> (nat \<times> string list \<times> nat) option" where
  "lands B [] n = (if n = 0 then Some (B, [], 0) else None)"
| "lands B (p # ps) n =
     (if n = 0 then Some (B, p # ps, 0)
      else if length (frame p) \<le> n then
        (if n + length (frame p) \<le> B then lands B ps (n - length (frame p))
         else if ps = [] \<and> n = length (frame p) then Some (B, [], 0)
         else None)
      else if n \<le> length (dec (length p)) then None
      else if B < length (frame p) then Some (2 * B, p # ps, n)
      else if n < length p then Some (B, p # ps, n)
      else None)"

fun reads_wait :: "nat \<Rightarrow> string list \<Rightarrow> nat \<Rightarrow> string list \<Rightarrow> bool" where
  "reads_wait B ps k [] = (ps = [] \<and> k = 0)"
| "reads_wait B ps k (c # cs) =
     (c \<noteq> [] \<and> k + length c \<le> B \<and>
      c = take (length c) (drop k (concat (map frame ps))) \<and>
      (case lands B ps (k + length c) of
         None \<Rightarrow> False
       | Some (B', ps', k') \<Rightarrow> reads_wait B' ps' k' cs))"

fun capacity :: "nat \<Rightarrow> string list \<Rightarrow> nat \<Rightarrow> string list \<Rightarrow> nat" where
  "capacity B ps k [] = B"
| "capacity B ps k (c # cs) =
     (case lands B ps (k + length c) of
        None \<Rightarrow> B
      | Some (B', ps', k') \<Rightarrow> capacity B' ps' k' cs)"

subsection \<open>Printing and parsing a length\<close>

lemma digit_char_props:
  assumes "d < 10"
  shows "isdigit (digit_char d)" "digit_val (digit_char d) = int d"
proof -
  from assms have "d \<in> {0, 1, 2, 3, 4, 5, 6, 7, 8, 9}" by auto
  then show "isdigit (digit_char d)" "digit_val (digit_char d) = int d"
    by (auto simp: digit_char_def isdigit_def digit_val_def)
qed

lemma dec_digits: "c \<in> set (dec n) \<Longrightarrow> isdigit c"
proof (induction n arbitrary: c rule: dec.induct)
  case (1 n)
  show ?case
  proof (cases "n < 10")
    case True
    with "1.prems" have "c = digit_char n" by (subst (asm) dec.simps) simp
    with True show ?thesis by (simp add: digit_char_props)
  next
    case False
    with "1.prems" have "c \<in> set (dec (n div 10)) \<or> c = digit_char (n mod 10)"
      by (subst (asm) dec.simps) auto
    then show ?thesis
      using "1.IH" [OF False] digit_char_props(1) [of "n mod 10"] by auto
  qed
qed

lemma dec_nonempty: "dec n \<noteq> []"
  by (subst dec.simps) simp

lemma atoi_digits_snoc:
  "\<forall>c \<in> set xs. isdigit c \<Longrightarrow> atoi_digits (xs @ ys) acc = atoi_digits ys (atoi_digits xs acc)"
  by (induction xs arbitrary: acc) auto

lemma atoi_digits_dec: "atoi_digits (dec n) acc = acc * 10 ^ length (dec n) + int n"
proof (induction n arbitrary: acc rule: dec.induct)
  case (1 n)
  show ?case
  proof (cases "n < 10")
    case True
    then have "dec n = [digit_char n]" by (subst dec.simps) simp
    with True show ?thesis by (simp add: digit_char_props)
  next
    case False
    let ?q = "n div 10" and ?r = "n mod 10"
    have d: "dec n = dec ?q @ [digit_char ?r]" using False by (subst dec.simps) simp
    have r: "?r < 10" by simp
    have "atoi_digits (dec n) acc = atoi_digits [digit_char ?r] (atoi_digits (dec ?q) acc)"
      unfolding d by (rule atoi_digits_snoc) (auto dest: dec_digits)
    also have "\<dots> = 10 * (acc * 10 ^ length (dec ?q) + int ?q) + int ?r"
      using "1.IH" [OF False] digit_char_props [OF r] by simp
    also have "\<dots> = acc * 10 ^ length (dec n) + (10 * int ?q + int ?r)"
      unfolding d by (simp add: algebra_simps)
    also have "10 * int ?q + int ?r = int n"
    proof -
      have "10 * ?q + ?r = n" by simp
      then have a: "int (10 * ?q + ?r) = int n" by (rule arg_cong)
      have b: "int (10 * ?q + ?r) = 10 * int ?q + int ?r"
        by (simp only: of_nat_add of_nat_mult of_nat_numeral)
      from b [symmetric] a show ?thesis by (rule trans)
    qed
    finally show ?thesis .
  qed
qed

lemma atoi_dec: "atoi (dec n) = int n"
proof -
  obtain c cs where cs: "dec n = c # cs" using dec_nonempty [of n] by (cases "dec n") auto
  then have "isdigit c" using dec_digits [of c n] by simp
  then have "atoi (c # cs) = atoi_digits (c # cs) 0" by (rule atoi_digit_first)
  then show ?thesis using atoi_digits_dec [of n 0] cs by simp
qed

lemma length_dec: "n < 10 ^ k \<Longrightarrow> 0 < k \<Longrightarrow> length (dec n) \<le> k"
proof (induction n arbitrary: k rule: dec.induct)
  case (1 n)
  show ?case
  proof (cases "n < 10")
    case True
    then have "dec n = [digit_char n]" by (subst dec.simps) simp
    with "1.prems" show ?thesis by simp
  next
    case False
    obtain j where j: "k = Suc j" using "1.prems"(2) by (cases k) auto
    have "j \<noteq> 0"
    proof
      assume "j = 0"
      with j "1.prems"(1) False show False by simp
    qed
    moreover have "n div 10 < 10 ^ j" using "1.prems"(1) j
      by (simp add: less_mult_imp_div_less mult.commute)
    ultimately have "length (dec (n div 10)) \<le> j"
      using "1.IH" [OF False, of j] by simp
    moreover have "dec n = dec (n div 10) @ [digit_char (n mod 10)]"
      using False by (subst dec.simps) simp
    ultimately show ?thesis using j by simp
  qed
qed


subsection \<open>One frame at the front of the buffer\<close>

lemma strchr_mem_finds:
  "(\<forall>j < k. m (i + j) \<noteq> c \<and> m (i + j) \<noteq> NUL) \<Longrightarrow> m (i + k) = c \<Longrightarrow> k < n \<Longrightarrow>
   strchr_mem m i n c = Found (i + k)"
proof (induction k arbitrary: i n)
  case 0
  then obtain n' where "n = Suc n'" by (cases n) auto
  with 0 show ?case by simp
next
  case (Suc k)
  then obtain n' where n: "n = Suc n'" by (cases n) auto
  from Suc.prems(1) have first: "m i \<noteq> c" "m i \<noteq> NUL" by force+
  have "strchr_mem m (Suc i) n' c = Found (Suc i + k)"
  proof (rule Suc.IH)
    show "\<forall>j < k. m (Suc i + j) \<noteq> c \<and> m (Suc i + j) \<noteq> NUL"
    proof (intro allI impI)
      fix j assume "j < k"
      then have "Suc j < Suc k" by simp
      with Suc.prems(1) have "m (i + Suc j) \<noteq> c \<and> m (i + Suc j) \<noteq> NUL" by blast
      then show "m (Suc i + j) \<noteq> c \<and> m (Suc i + j) \<noteq> NUL" by simp
    qed
    show "m (Suc i + k) = c" using Suc.prems(2) by simp
    show "k < n'" using Suc.prems(3) n by simp
  qed
  with first n show ?case by simp
qed

lemma frame_length: "length (frame p) = length (dec (length p)) + 1 + length p"
  by (simp add: frame_def)

lemma fills_nth: "fills m B data \<Longrightarrow> i < length data \<Longrightarrow> i < B \<Longrightarrow> m i = data ! i"
  by (simp add: fills_def)

lemma fills_zero: "fills m B data \<Longrightarrow> length data \<le> i \<Longrightarrow> i < B \<Longrightarrow> m i = NUL"
  by (simp add: fills_def)

lemma fills_write:
  assumes "fills m B (take T F)" "T \<le> length F" "T + d \<le> B"
  shows "fills (write_mem m T (take d (drop T F))) B (take (T + d) F)"
  unfolding fills_def
proof (intro allI impI)
  fix i assume i: "i < B"
  let ?w = "take d (drop T F)"
  let ?W = "min (T + d) (length F)"
  have lw: "T + length ?w = ?W" using assms(2) by (auto simp: min_def)
  have lt: "length (take (T + d) F) = ?W" by (simp add: min_def)
  have TW: "T \<le> ?W" using assms(2) by simp
  show "write_mem m T ?w i = (if i < length (take (T + d) F) then take (T + d) F ! i else NUL)"
  proof (cases "i < T")
    case True
    then have "write_mem m T ?w i = m i" by (simp add: write_mem_def)
    also have "m i = take T F ! i" using assms(1,2) True i by (simp add: fills_def)
    also have "\<dots> = F ! i" using True by simp
    finally show ?thesis unfolding lt using True TW by simp
  next
    case False
    show ?thesis
    proof (cases "i < ?W")
      case True
      then have "i < T + length ?w" unfolding lw .
      then have "write_mem m T ?w i = ?w ! (i - T)" using False by (simp add: write_mem_def)
      also have "\<dots> = F ! i"
      proof -
        have "i - T < d" using True False by auto
        then have "?w ! (i - T) = drop T F ! (i - T)" by simp
        also have "\<dots> = F ! (T + (i - T))" using assms(2) by simp
        also have "T + (i - T) = i" using False by simp
        finally show ?thesis .
      qed
      finally show ?thesis unfolding lt using True by auto
    next
      case nW: False
      then have "\<not> i < T + length ?w" unfolding lw .
      then have "write_mem m T ?w i = m i" by (simp add: write_mem_def)
      also have "m i = NUL" using assms(1,2) False i by (simp add: fills_def)
      finally show ?thesis unfolding lt using nW by auto
    qed
  qed
qed

lemma fills_realloc:
  assumes "fills m B data" "\<forall>i. heap i = NUL" "length data \<le> B"
  shows "fills (realloc m B heap) (2 * B) data"
  using assms by (auto simp: fills_def realloc_def)

lemma fills_write_front: "fills m B [] \<Longrightarrow> fills (write_mem m 0 bytes) B bytes"
  by (simp add: fills_def write_mem_def)

lemma fills_realloc_upto:
  assumes "fills m B data" "\<forall>i < 2 * B. heap i = NUL" "length data \<le> B"
  shows "fills (realloc m B heap) (2 * B) data"
  using assms by (auto simp: fills_def realloc_def)

lemma fills_mem_bytes:
  assumes "fills m B data" "a + n \<le> length data" "length data \<le> B"
  shows "mem_bytes m a n = take n (drop a data)"
proof (rule nth_equalityI)
  show "length (mem_bytes m a n) = length (take n (drop a data))"
    using assms(2) by (simp add: length_mem_bytes)
next
  fix i assume "i < length (mem_bytes m a n)"
  then have i: "i < n" by (simp add: length_mem_bytes)
  then have "a + i < length data" using assms(2) by simp
  then have "m (a + i) = data ! (a + i)" using fills_nth [OF assms(1), of "a + i"] assms(3) by simp
  then show "mem_bytes m a n ! i = take n (drop a data) ! i"
    using i assms(2) by (simp add: mem_bytes_def)
qed

lemma fills_memmove:
  assumes "fills m B (a @ b)" "length (a @ b) + length a \<le> B"
  shows "fills (memmove_down m (length a) (B - length a)) B b"
  unfolding fills_def
proof (intro allI impI)
  fix i :: nat assume i: "i < B"
  show "memmove_down m (length a) (B - length a) i = (if i < length b then b ! i else NUL)"
  proof (cases "i < B - length a")
    case True
    then have "i + length a < B" by simp
    then have "m (i + length a) =
        (if i + length a < length (a @ b) then (a @ b) ! (i + length a) else NUL)"
      using assms(1) by (simp add: fills_def)
    then show ?thesis using True by (simp add: memmove_down_def nth_append)
  next
    case False
    then have "\<not> i < length (a @ b)" "\<not> i < length b" using assms(2) by simp_all
    moreover have "m i = (if i < length (a @ b) then (a @ b) ! i else NUL)"
      using assms(1) i by (simp add: fills_def)
    ultimately show ?thesis using False by (simp add: memmove_down_def)
  qed
qed

lemma mem_bytes_nth: "i < n \<Longrightarrow> mem_bytes m a n ! i = m (a + i)"
  by (simp add: mem_bytes_def)

lemma frame_nth:
  "i < length (dec (length p)) \<Longrightarrow> frame p ! i = dec (length p) ! i"
  "frame p ! length (dec (length p)) = SPC"
  "i < length p \<Longrightarrow> frame p ! (length (dec (length p)) + 1 + i) = p ! i"
  by (simp_all add: frame_def nth_append)

lemma prefix_at:
  assumes at': "\<forall>i < T. buffer s i = frame p ! i"
    and sz: "buffer_size s = int B"
    and T: "length (dec (length p)) < T" "T \<le> B"
  shows "strchr_mem (buffer s) 0 (nat (buffer_size s)) SPC = Found (length (dec (length p)))"
    and "isdigit (buffer s 0)"
    and "mem_bytes (buffer s) 0 (length (dec (length p))) = dec (length p)"
proof -
  let ?ds = "dec (length p)" and ?F = "frame p"
  let ?k = "length ?ds"
  have at: "\<And>i. i < T \<Longrightarrow> buffer s i = frame p ! i" using at' by blast
  have digs: "\<forall>j < ?k. isdigit (buffer s j)"
  proof (intro allI impI)
    fix j assume j: "j < ?k"
    then have "buffer s j = ?ds ! j" using at [of j] T(1) by (simp add: frame_nth)
    then show "isdigit (buffer s j)" using j dec_digits [of "?ds ! j" "length p"] by simp
  qed
  have spc: "buffer s ?k = SPC" using at [of ?k] T(1) by (simp add: frame_nth)
  have "strchr_mem (buffer s) 0 B SPC = Found (0 + ?k)"
  proof (rule strchr_mem_finds)
    show "\<forall>j < ?k. buffer s (0 + j) \<noteq> SPC \<and> buffer s (0 + j) \<noteq> NUL"
      using digs isdigit_not_special by auto
    show "buffer s (0 + ?k) = SPC" using spc by simp
    show "?k < B" using T by simp
  qed
  then show "strchr_mem (buffer s) 0 (nat (buffer_size s)) SPC = Found ?k"
    using sz by simp
  have k0: "0 < ?k" using dec_nonempty [of "length p"] by simp
  then show "isdigit (buffer s 0)" using digs by blast
  show "mem_bytes (buffer s) 0 ?k = ?ds"
  proof (rule nth_equalityI)
    show "length (mem_bytes (buffer s) 0 ?k) = length ?ds" by (simp add: length_mem_bytes)
  next
    fix i assume "i < length (mem_bytes (buffer s) 0 ?k)"
    then have i: "i < ?k" by (simp add: length_mem_bytes)
    then have "buffer s i = ?ds ! i" using at [of i] T(1) by (simp add: frame_nth)
    then show "mem_bytes (buffer s) 0 ?k ! i = ?ds ! i" using i by (simp add: mem_bytes_nth)
  qed
qed

lemma prefix_found:
  assumes f: "fills (buffer s) B (take T (frame p))"
    and sz: "buffer_size s = int B"
    and T: "length (dec (length p)) < T" "T \<le> length (frame p)" "T \<le> B"
  shows "strchr_mem (buffer s) 0 (nat (buffer_size s)) SPC = Found (length (dec (length p)))"
    and "isdigit (buffer s 0)"
    and "mem_bytes (buffer s) 0 (length (dec (length p))) = dec (length p)"
proof -
  have at: "\<forall>i < T. buffer s i = frame p ! i"
  proof (intro allI impI)
    fix i assume i: "i < T"
    then have "buffer s i = take T (frame p) ! i"
      using fills_nth [OF f, of i] T by simp
    then show "buffer s i = frame p ! i" using i by simp
  qed
  note pa = prefix_at [OF at sz T(1) T(3)]
  show "strchr_mem (buffer s) 0 (nat (buffer_size s)) SPC = Found (length (dec (length p)))"
    by (rule pa(1))
  show "isdigit (buffer s 0)" by (rule pa(2))
  show "mem_bytes (buffer s) 0 (length (dec (length p))) = dec (length p)" by (rule pa(3))
qed

lemma decode_step_NUL_first:
  assumes "buffer s 0 = NUL" "0 < buffer_size s"
  shows "decode_step hr heap s = Leave (Break (s\<lparr>total_bytes_received := 0\<rparr>))"
proof -
  from assms(2) obtain B' where "nat (buffer_size s) = Suc B'"
    by (cases "nat (buffer_size s)") auto
  then have sc: "strchr_mem (buffer s) 0 (nat (buffer_size s)) SPC = NotFound"
    using assms(1) by simp
  show ?thesis unfolding decode_step_def sc by simp
qed

lemma digits_le_9: "length p < 1000000000 \<Longrightarrow> length (dec (length p)) \<le> 9"
proof -
  assume "length p < 1000000000"
  then have "length p < 10 ^ 9" by simp
  then show ?thesis by (rule length_dec) simp
qed

lemma decode_step_complete:
  assumes "strchr_mem (buffer s) 0 (nat (buffer_size s)) SPC = Found k"
    and "isdigit (buffer s 0)" and "k < 10"
    and "atoi (mem_bytes (buffer s) 0 k) = n"
    and "\<not> buffer_size s - int k - 1 < n"
    and "\<not> total_bytes_received s < n"
    and "takeWhile (\<lambda>c. c \<noteq> NUL) (mem_bytes (buffer s) (k + 1) (nat n)) = msg"
    and "\<not> total_bytes_received s - (int k + n + 1) < INT_MIN"
  shows "decode_step hr heap s =
     (if hr (handled s @ [msg]) then Leave (AllDone (s\<lparr>handled := handled s @ [msg]\<rparr>))
      else Again (s\<lparr>buffer := memmove_down (buffer s) (nat (int k + n + 1))
                                 (nat (buffer_size s - (int k + n + 1))),
                     total_bytes_received := total_bytes_received s - (int k + n + 1),
                     handled := handled s @ [msg]\<rparr>))"
  using assms by (simp add: decode_step_def Let_def length_mem_bytes)

lemma decode_step_whole:
  assumes sz: "buffer_size s = int B"
    and f: "fills (buffer s) B (frame p @ rest)"
    and len: "length (frame p @ rest) \<le> B"
    and tot: "int (length p) \<le> total_bytes_received s"
    and nul: "NUL \<notin> set p" and n9: "length p < 1000000000"
  shows "decode_step hr heap s =
     (if hr (handled s @ [p]) then Leave (AllDone (s\<lparr>handled := handled s @ [p]\<rparr>))
      else Again (s\<lparr>buffer := memmove_down (buffer s) (length (frame p)) (B - length (frame p)),
                     total_bytes_received := total_bytes_received s - int (length (frame p)),
                     handled := handled s @ [p]\<rparr>))"
proof -
  let ?ds = "dec (length p)" and ?data = "frame p @ rest"
  let ?k = "length ?ds"
  have L: "length (frame p) = ?k + 1 + length p" by (rule frame_length)
  have kL: "?k < length (frame p)" using L by simp
  have LB: "length (frame p) \<le> B" using len by simp
  have at: "\<forall>i < length (frame p). buffer s i = frame p ! i"
  proof (intro allI impI)
    fix i assume i: "i < length (frame p)"
    then have "buffer s i = ?data ! i" using fills_nth [OF f, of i] len by simp
    then show "buffer s i = frame p ! i" using i by (simp add: nth_append)
  qed
  note pf = prefix_at [OF at sz kL LB]
  have "?k \<le> 9" using n9 by (rule digits_le_9)
  then have k10: "?k < 10" by simp
  have ad: "atoi (mem_bytes (buffer s) 0 ?k) = int (length p)"
    unfolding pf(3) by (rule atoi_dec)
  have fits: "\<not> buffer_size s - int ?k - 1 < int (length p)"
    unfolding sz using LB L by simp
  have enough: "\<not> total_bytes_received s < int (length p)"
    using tot by simp
  have msg: "mem_bytes (buffer s) (?k + 1) (length p) = p"
  proof -
    have "mem_bytes (buffer s) (?k + 1) (length p) = take (length p) (drop (?k + 1) ?data)"
      using f _ len by (rule fills_mem_bytes) (simp add: frame_def)
    then show ?thesis by (simp add: frame_def)
  qed
  have tw: "takeWhile (\<lambda>c. c \<noteq> NUL) p = p"
    using nul by (auto simp: takeWhile_eq_all_conv)
  have msg': "takeWhile (\<lambda>c. c \<noteq> NUL) (mem_bytes (buffer s) (?k + 1) (nat (int (length p)))) = p"
    using msg tw by simp
  have br: "int ?k + int (length p) + 1 = int (length (frame p))"
    using L by simp
  have nomin: "\<not> (total_bytes_received s - (int ?k + int (length p) + 1) < INT_MIN)"
    using tot k10 by (simp add: INT_MIN_def)
  have sizes: "nat (int (length (frame p))) = length (frame p)"
      "nat (buffer_size s - int (length (frame p))) = B - length (frame p)"
    unfolding sz using LB by simp_all
  show ?thesis
    unfolding decode_step_complete [OF pf(1) pf(2) k10 ad fits enough msg' nomin] br sizes
    by (rule refl)
qed

lemma decode_step_short:
  assumes sz: "buffer_size s = int B"
    and f: "fills (buffer s) B (take n (frame p))"
    and tot: "total_bytes_received s = int n"
    and w: "length (dec (length p)) < n" "n < length p"
    and fit: "length (frame p) \<le> B"
    and n9: "length p < 1000000000"
  shows "decode_step hr heap s = Leave (Break s)"
proof -
  let ?k = "length (dec (length p))"
  have L: "length (frame p) = ?k + 1 + length p" by (rule frame_length)
  have nL: "n \<le> length (frame p)" using w(2) L by simp
  have nB: "n \<le> B" using nL fit by simp
  note pf = prefix_found [OF f sz w(1) nL nB]
  have "?k \<le> 9" using n9 by (rule digits_le_9)
  then have k10: "?k < 10" by simp
  have ad: "atoi (mem_bytes (buffer s) 0 ?k) = int (length p)"
    unfolding pf(3) by (rule atoi_dec)
  have fits: "\<not> buffer_size s - int ?k - 1 < int (length p)"
    unfolding sz using fit L by simp
  have short: "total_bytes_received s < int (length p)"
    unfolding tot using w(2) by simp
  show ?thesis
    unfolding decode_step_def pf(1) scan.case Let_def ad
    using pf(2) k10 fits short by simp
qed

lemma decode_step_small_buffer:
  assumes sz: "buffer_size s = int B"
    and f: "fills (buffer s) B (take n (frame p))"
    and w: "length (dec (length p)) < n" "n \<le> length (frame p)" "n \<le> B"
    and big: "B < length (frame p)"
    and n9: "length p < 1000000000"
  shows "decode_step hr heap s =
           Leave (Break (s\<lparr>buffer := realloc (buffer s) B heap, buffer_size := int (2 * B)\<rparr>))"
proof -
  let ?k = "length (dec (length p))"
  have L: "length (frame p) = ?k + 1 + length p" by (rule frame_length)
  note pf = prefix_found [OF f sz w]
  have "?k \<le> 9" using n9 by (rule digits_le_9)
  then have k10: "?k < 10" by simp
  have big': "buffer_size s - int ?k - 1 < atoi (mem_bytes (buffer s) 0 ?k)"
    unfolding pf(3) atoi_dec sz using big L by simp
  have "decode_step hr heap s =
      Leave (Break (s\<lparr>buffer := realloc (buffer s) (nat (buffer_size s)) heap,
                      buffer_size := buffer_size s * 2\<rparr>))"
    using pf(1) pf(2) k10 big' by (rule decode_step_grows)
  then show ?thesis unfolding sz by (simp add: mult.commute)
qed

lemma decode_step_nothing:
  assumes "fills (buffer s) B []" "buffer_size s = int B" "0 < B"
  shows "inner_loop hr heap s = Break (s\<lparr>total_bytes_received := 0\<rparr>)"
proof -
  have "buffer s 0 = NUL" using fills_zero [OF assms(1), of 0] assms(3) by simp
  moreover have "0 < buffer_size s" using assms(2,3) by simp
  ultimately have "decode_step hr heap s = Leave (Break (s\<lparr>total_bytes_received := 0\<rparr>))"
    by (rule decode_step_NUL_first)
  then show ?thesis by (subst inner_loop.simps) simp
qed

lemma last_frame_step:
  assumes f: "fills (buffer s) B (frame p)"
    and sz: "buffer_size s = int B" and tot: "total_bytes_received s = int (length (frame p))"
    and B: "length (frame p) \<le> B" "length (frame p) < B \<or> 0 < length p"
    and n: "length p < 1000000000" and nul: "NUL \<notin> set p"
  shows "\<exists>s'. inner_loop hr heap s = (if hr (handled s @ [p]) then AllDone s' else Break s') \<and>
              handled s' = handled s @ [p]"
proof -
  let ?F = "frame p"
  let ?k = "length (dec (length p))" and ?L = "length (frame p)"
  have k9: "?k \<le> 9" using n by (rule digits_le_9)
  have L: "?L = ?k + 1 + length p" by (rule frame_length)
  have f0: "fills (buffer s) B (frame p @ [])" using f by simp
  have len: "length (frame p @ []) \<le> B" using B(1) by simp
  have tot': "int (length p) \<le> total_bytes_received s" unfolding tot using L by simp
  note step = decode_step_whole [OF sz f0 len tot' nul n, of hr heap]
  show ?thesis
  proof (cases "hr (handled s @ [p])")
    case True
    then have "decode_step hr heap s = Leave (AllDone (s\<lparr>handled := handled s @ [p]\<rparr>))"
      using step by simp
    then have "inner_loop hr heap s = AllDone (s\<lparr>handled := handled s @ [p]\<rparr>)"
      by (subst inner_loop.simps) simp
    then show ?thesis using True by simp
  next
    case False
    let ?s1 = "s\<lparr>buffer := memmove_down (buffer s) ?L (B - ?L),
                  total_bytes_received := 0, handled := handled s @ [p]\<rparr>"
    have "decode_step hr heap s = Again ?s1"
      using step False unfolding tot by simp
    then have loop: "inner_loop hr heap s = inner_loop hr heap ?s1"
      by (subst inner_loop.simps) simp
    have "\<exists>u. inner_loop hr heap ?s1 = Break u \<and> handled u = handled s @ [p]"
    proof (cases "?L < B")
      case True
      then have "memmove_down (buffer s) ?L (B - ?L) 0 = buffer s ?L"
        by (simp add: memmove_down_def)
      also have "\<dots> = NUL" using fills_zero [OF f, of ?L] True by simp
      finally have z: "buffer ?s1 0 = NUL" by simp
      have "0 < buffer_size ?s1" using True sz by simp
      with z have "decode_step hr heap ?s1 = Leave (Break (?s1\<lparr>total_bytes_received := 0\<rparr>))"
        by (rule decode_step_NUL_first)
      then have "inner_loop hr heap ?s1 = Break (?s1\<lparr>total_bytes_received := 0\<rparr>)"
        by (subst inner_loop.simps) simp
      then show ?thesis by simp
    next
      case nlt: False
      then have eq: "B = ?L" using B(1) by simp
      have same: "buffer ?s1 = buffer s"
        by (simp add: memmove_down_def eq)
      have f1: "fills (buffer ?s1) B (take ?L ?F)" using f same by simp
      have sz1: "buffer_size ?s1 = int B" using sz by simp
      have kL: "?k < ?L" using L by simp
      note pf1 = prefix_found [OF f1 sz1 kL order_refl B(1)]
      have ad1: "atoi (mem_bytes (buffer ?s1) 0 ?k) = int (length p)"
        unfolding pf1(3) by (rule atoi_dec)
      have pos: "0 < length p" using B(2) nlt by blast
      have k10: "?k < 10" using k9 by simp
      have fits: "\<not> buffer_size s - int ?k - 1 < int (length p)"
        unfolding sz using B(1) L by simp
      have "decode_step hr heap ?s1 = Leave (Break ?s1)"
        unfolding decode_step_def pf1(1) scan.case Let_def ad1
        using pf1(2) k10 fits pos sz by simp
      then have "inner_loop hr heap ?s1 = Break ?s1"
        by (subst inner_loop.simps) simp
      then show ?thesis by simp
    qed
    then show ?thesis using loop False by auto
  qed
qed


subsection \<open>All frames of one read, and all reads\<close>

lemma deliveries_no_stop: "\<not> stops h tr ms \<Longrightarrow> deliveries h tr ms = tr @ ms"
  by (induction ms arbitrary: tr) auto

lemma deliveries_append:
  "deliveries h tr (a @ b) =
     (if stops h tr a then deliveries h tr a else deliveries h (tr @ a) b)"
  by (induction a arbitrary: tr) auto

lemma lands_capacity: "lands B ps n = Some (B', ps', k') \<Longrightarrow> B \<le> B'"
  by (induction ps arbitrary: n) (auto split: if_splits)

lemma capacity_ge: "B \<le> capacity B ps k cs"
proof (induction cs arbitrary: B ps k)
  case Nil
  show ?case by simp
next
  case (Cons c cs)
  show ?case
  proof (cases "lands B ps (k + length c)")
    case None
    then show ?thesis by simp
  next
    case (Some r)
    obtain B' ps' k' where r: "r = (B', ps', k')" by (cases r) auto
    have "B \<le> B'" using Some r by (auto intro: lands_capacity)
    also have "B' \<le> capacity B' ps' k' cs" by (rule Cons.IH)
    finally show ?thesis using Some r by simp
  qed
qed

lemma inner_loop_lands:
  assumes "buffer_size s = int B"
    and "fills (buffer s) B (take n (concat (map frame ps)))"
    and "total_bytes_received s = int n"
    and "n \<le> B" and "n \<le> length (concat (map frame ps))"
    and "\<forall>p \<in> set ps. NUL \<notin> set p \<and> length p < 1000000000"
    and "\<forall>i < B'. heap i = NUL" and "11 < B"
    and "lands B ps n = Some (B', ps', k')"
  shows "\<exists>s' done. ps = done @ ps' \<and>
           inner_loop hr heap s = (if stops hr (handled s) done then AllDone s' else Break s') \<and>
           handled s' = deliveries hr (handled s) done \<and>
           (\<not> stops hr (handled s) done \<and> ps' \<noteq> [] \<longrightarrow>
              buffer_size s' = int B' \<and> total_bytes_received s' = int k' \<and>
              fills (buffer s') B' (take k' (concat (map frame ps'))))"
  using assms
proof (induction ps arbitrary: s n)
  case Nil
  have B0: "0 < B" using Nil.prems(8) by simp
  from Nil.prems(9) have n0: "n = 0" "ps' = []" by (simp_all split: if_splits)
  have "fills (buffer s) B []" using Nil.prems(2) by simp
  then have "inner_loop hr heap s = Break (s\<lparr>total_bytes_received := 0\<rparr>)"
    using Nil.prems(1) B0 by (rule decode_step_nothing)
  then have "[] = [] @ ps' \<and>
           inner_loop hr heap s = (if stops hr (handled s) [] then AllDone (s\<lparr>total_bytes_received := 0\<rparr>)
                                   else Break (s\<lparr>total_bytes_received := 0\<rparr>)) \<and>
           handled (s\<lparr>total_bytes_received := 0\<rparr>) = deliveries hr (handled s) [] \<and>
           (\<not> stops hr (handled s) [] \<and> ps' \<noteq> [] \<longrightarrow>
              buffer_size (s\<lparr>total_bytes_received := 0\<rparr>) = int B' \<and>
              total_bytes_received (s\<lparr>total_bytes_received := 0\<rparr>) = int k' \<and>
              fills (buffer (s\<lparr>total_bytes_received := 0\<rparr>)) B' (take k' (concat (map frame ps'))))"
    using n0 by simp
  then show ?case by blast
next
  case (Cons p ps)
  let ?R = "concat (map frame ps)"
  let ?L = "length (frame p)"
  have data: "concat (map frame (p # ps)) = frame p @ ?R" by simp
  have B0: "0 < B" using Cons.prems(8) by simp
  have nul: "NUL \<notin> set p" and n9: "length p < 1000000000" using Cons.prems(6) by simp_all
  show ?case
  proof (cases "n = 0")
    case True
    with Cons.prems(9) have l: "ps' = p # ps" "k' = 0" "B' = B" by simp_all
    have e: "fills (buffer s) B []" using Cons.prems(2) True by simp
    then have "inner_loop hr heap s = Break (s\<lparr>total_bytes_received := 0\<rparr>)"
      using Cons.prems(1) B0 by (rule decode_step_nothing)
    then have "p # ps = [] @ ps' \<and>
           inner_loop hr heap s = (if stops hr (handled s) [] then AllDone (s\<lparr>total_bytes_received := 0\<rparr>)
                                   else Break (s\<lparr>total_bytes_received := 0\<rparr>)) \<and>
           handled (s\<lparr>total_bytes_received := 0\<rparr>) = deliveries hr (handled s) [] \<and>
           (\<not> stops hr (handled s) [] \<and> ps' \<noteq> [] \<longrightarrow>
              buffer_size (s\<lparr>total_bytes_received := 0\<rparr>) = int B' \<and>
              total_bytes_received (s\<lparr>total_bytes_received := 0\<rparr>) = int k' \<and>
              fills (buffer (s\<lparr>total_bytes_received := 0\<rparr>)) B' (take k' (concat (map frame ps'))))"
      using l Cons.prems(1) e by simp
    then show ?thesis by blast
  next
    case n0: False
    show ?thesis
    proof (cases "?L \<le> n")
      case True
      show ?thesis
      proof (cases "n + ?L \<le> B")
        case room: True
        with Cons.prems(9) n0 True have l: "lands B ps (n - ?L) = Some (B', ps', k')"
          by simp
        let ?rest = "take (n - ?L) ?R"
        have tk: "take n (frame p @ ?R) = frame p @ ?rest" using True by simp
        have hd: "fills (buffer s) B (frame p @ ?rest)" using Cons.prems(2) unfolding data tk .
        have nR: "n - ?L \<le> length ?R" using Cons.prems(5) True by simp
        then have lenr: "length ?rest = n - ?L" by simp
        have len: "length (frame p @ ?rest) = n" using lenr True by simp
        have len': "length (frame p @ ?rest) \<le> B" using len Cons.prems(4) by simp
        have tot': "int (length p) \<le> total_bytes_received s"
          using Cons.prems(3) True by (simp add: frame_length)
        note step = decode_step_whole [of s B p ?rest hr heap, OF Cons.prems(1) hd len' tot' nul n9]
        let ?s1 = "s\<lparr>buffer := memmove_down (buffer s) ?L (B - ?L),
                      total_bytes_received := total_bytes_received s - int ?L,
                      handled := handled s @ [p]\<rparr>"
        have h1: "fills (buffer ?s1) B ?rest"
          using fills_memmove [of "buffer s" B "frame p" ?rest] hd len room by simp
        have "\<exists>s' done. ps = done @ ps' \<and>
             inner_loop hr heap ?s1 = (if stops hr (handled ?s1) done then AllDone s' else Break s') \<and>
             handled s' = deliveries hr (handled ?s1) done \<and>
             (\<not> stops hr (handled ?s1) done \<and> ps' \<noteq> [] \<longrightarrow>
                buffer_size s' = int B' \<and> total_bytes_received s' = int k' \<and>
                fills (buffer s') B' (take k' (concat (map frame ps'))))"
        proof (rule Cons.IH)
          show "buffer_size ?s1 = int B" using Cons.prems(1) by simp
          show "fills (buffer ?s1) B (take (n - ?L) ?R)" by (rule h1)
          show "total_bytes_received ?s1 = int (n - ?L)" using Cons.prems(3) True by simp
          show "n - ?L \<le> B" using Cons.prems(4) by simp
          show "n - ?L \<le> length ?R" by (rule nR)
          show "\<forall>p \<in> set ps. NUL \<notin> set p \<and> length p < 1000000000" using Cons.prems(6) by simp
          show "\<forall>i < B'. heap i = NUL" by (rule Cons.prems(7))
          show "11 < B" by (rule Cons.prems(8))
          show "lands B ps (n - ?L) = Some (B', ps', k')" by (rule l)
        qed
        then obtain s' d where ih: "ps = d @ ps'"
            "inner_loop hr heap ?s1 = (if stops hr (handled s @ [p]) d then AllDone s' else Break s')"
            "handled s' = deliveries hr (handled s @ [p]) d"
            "\<not> stops hr (handled s @ [p]) d \<and> ps' \<noteq> [] \<longrightarrow>
                buffer_size s' = int B' \<and> total_bytes_received s' = int k' \<and>
                fills (buffer s') B' (take k' (concat (map frame ps')))"
          by auto
        show ?thesis
        proof (cases "hr (handled s @ [p])")
          case True
          let ?u = "s\<lparr>handled := handled s @ [p]\<rparr>"
          have "decode_step hr heap s = Leave (AllDone ?u)" using step True by simp
          then have "inner_loop hr heap s = AllDone ?u" by (subst inner_loop.simps) simp
          then have "p # ps = (p # d) @ ps' \<and>
             inner_loop hr heap s = (if stops hr (handled s) (p # d) then AllDone ?u else Break ?u) \<and>
             handled ?u = deliveries hr (handled s) (p # d) \<and>
             (\<not> stops hr (handled s) (p # d) \<and> ps' \<noteq> [] \<longrightarrow>
                buffer_size ?u = int B' \<and> total_bytes_received ?u = int k' \<and>
                fills (buffer ?u) B' (take k' (concat (map frame ps'))))"
            using True ih(1) by simp
          then show ?thesis by blast
        next
          case False
          have "decode_step hr heap s = Again ?s1" using step False by simp
          then have "inner_loop hr heap s = inner_loop hr heap ?s1" by (subst inner_loop.simps) simp
          then have "p # ps = (p # d) @ ps' \<and>
             inner_loop hr heap s = (if stops hr (handled s) (p # d) then AllDone s' else Break s') \<and>
             handled s' = deliveries hr (handled s) (p # d) \<and>
             (\<not> stops hr (handled s) (p # d) \<and> ps' \<noteq> [] \<longrightarrow>
                buffer_size s' = int B' \<and> total_bytes_received s' = int k' \<and>
                fills (buffer s') B' (take k' (concat (map frame ps'))))"
            using False ih by simp
          then show ?thesis by blast
        qed
      next
        case noroom: False
        with Cons.prems(9) n0 True have last: "ps = []" "n = ?L" and l: "ps' = []"
          by (simp_all split: if_splits)
        have f: "fills (buffer s) B (frame p)" using Cons.prems(2) last by simp
        have tot: "total_bytes_received s = int ?L" using Cons.prems(3) last by simp
        have LB: "?L \<le> B" using Cons.prems(4) last by simp
        have pos: "?L < B \<or> 0 < length p"
        proof (cases "?L < B")
          case False
          have "length (dec (length p)) \<le> 9" using n9 by (rule digits_le_9)
          moreover have "B < ?L + ?L" using noroom last by simp
          moreover have "?L = B" using False LB by simp
          ultimately have "length p \<noteq> 0" using Cons.prems(8) by (auto simp: frame_length)
          then show ?thesis by simp
        qed simp
        from last_frame_step [OF f Cons.prems(1) tot LB pos n9 nul, of hr heap]
        obtain s' where s': "inner_loop hr heap s = (if hr (handled s @ [p]) then AllDone s' else Break s')"
            "handled s' = handled s @ [p]"
          by blast
        then have "p # ps = [p] @ ps' \<and>
             inner_loop hr heap s = (if stops hr (handled s) [p] then AllDone s' else Break s') \<and>
             handled s' = deliveries hr (handled s) [p] \<and>
             (\<not> stops hr (handled s) [p] \<and> ps' \<noteq> [] \<longrightarrow>
                buffer_size s' = int B' \<and> total_bytes_received s' = int k' \<and>
                fills (buffer s') B' (take k' (concat (map frame ps'))))"
          using last l by simp
        then show ?thesis by blast
      qed
    next
      case False
      with Cons.prems(9) n0 have w: "length (dec (length p)) < n"
        by (simp split: if_splits)
      have tk: "take n (frame p @ ?R) = take n (frame p)" using False by simp
      have hd: "fills (buffer s) B (take n (frame p))" using Cons.prems(2) unfolding data tk .
      have nL: "n \<le> ?L" using False by simp
      show ?thesis
      proof (cases "B < ?L")
        case True
        with Cons.prems(9) n0 False w have l: "ps' = p # ps" "k' = n" "B' = 2 * B"
          by simp_all
        let ?u = "s\<lparr>buffer := realloc (buffer s) B heap, buffer_size := int (2 * B)\<rparr>"
        have "decode_step hr heap s = Leave (Break ?u)"
          using Cons.prems(1) hd w nL Cons.prems(4) True n9 by (rule decode_step_small_buffer)
        then have il: "inner_loop hr heap s = Break ?u" by (subst inner_loop.simps) simp
        have hz: "\<forall>i < 2 * B. heap i = NUL" using Cons.prems(7) l(3) by simp
        have fu: "fills (buffer ?u) (2 * B) (take n (frame p))"
          using fills_realloc_upto [OF hd hz] Cons.prems(4) by simp
        have "p # ps = [] @ ps' \<and>
             inner_loop hr heap s = (if stops hr (handled s) [] then AllDone ?u else Break ?u) \<and>
             handled ?u = deliveries hr (handled s) [] \<and>
             (\<not> stops hr (handled s) [] \<and> ps' \<noteq> [] \<longrightarrow>
                buffer_size ?u = int B' \<and> total_bytes_received ?u = int k' \<and>
                fills (buffer ?u) B' (take k' (concat (map frame ps'))))"
          using l il fu Cons.prems(3) nL by simp
        then show ?thesis by blast
      next
        case fit: False
        with Cons.prems(9) n0 False w have short: "n < length p"
          and l: "ps' = p # ps" "k' = n" "B' = B"
          by (simp_all split: if_splits)
        have fit': "?L \<le> B" using fit by simp
        have "decode_step hr heap s = Leave (Break s)"
          using Cons.prems(1) hd Cons.prems(3) w short fit' n9 by (rule decode_step_short)
        then have "inner_loop hr heap s = Break s" by (subst inner_loop.simps) simp
        then have "p # ps = [] @ ps' \<and>
             inner_loop hr heap s = (if stops hr (handled s) [] then AllDone s else Break s) \<and>
             handled s = deliveries hr (handled s) [] \<and>
             (\<not> stops hr (handled s) [] \<and> ps' \<noteq> [] \<longrightarrow>
                buffer_size s = int B' \<and> total_bytes_received s = int k' \<and>
                fills (buffer s) B' (take k' (concat (map frame ps'))))"
          using l Cons.prems(1,3) hd nL by simp
        then show ?thesis by blast
      qed
    qed
  qed
qed

lemma frame_nonempty: "frame p \<noteq> []"
  by (simp add: frame_def)

lemma receive_loop_closed: "receive_loop hr heap s [] = (Returned EXIT_SUCCESS, s)"
  by (subst receive_loop.simps) simp

lemma reads_wait_done: "reads_wait B [] k cs \<Longrightarrow> cs = []"
  by (cases cs) auto

lemma receive_loop_waits:
  assumes "buffer_size s = int B" and "total_bytes_received s = int k"
    and "fills (buffer s) B (take k (concat (map frame ps)))"
    and "\<forall>p \<in> set ps. NUL \<notin> set p \<and> length p < 1000000000"
    and "\<forall>i < capacity B ps k cs. heap i = NUL" and "11 < B"
    and "reads_wait B ps k cs"
  shows "fst (receive_loop hr heap s (map Data cs)) = Returned EXIT_SUCCESS \<and>
         handled (snd (receive_loop hr heap s (map Data cs))) = deliveries hr (handled s) ps"
  using assms
proof (induction cs arbitrary: s ps k B)
  case Nil
  then have "ps = []" by simp
  then show ?case by (simp add: receive_loop_closed)
next
  case (Cons c cs)
  let ?F = "concat (map frame ps)"
  let ?n = "k + length c"
  let ?conn = "map Data cs"
  from Cons.prems(7) have c: "c \<noteq> []" and n: "?n \<le> B"
    and ceq: "c = take (length c) (drop k ?F)"
    by simp_all
  from Cons.prems(7) obtain B' ps' k' where
    l: "lands B ps ?n = Some (B', ps', k')" and w: "reads_wait B' ps' k' cs"
    by (auto split: option.splits)
  have "length c = length (take (length c) (drop k ?F))" using ceq by simp
  then have cl: "length c \<le> length ?F - k" by simp
  have cap: "capacity B ps k (c # cs) = capacity B' ps' k' cs" using l by simp
  have hcap: "\<forall>i < capacity B' ps' k' cs. heap i = NUL" using Cons.prems(5) unfolding cap .
  have hB: "\<forall>i < B'. heap i = NUL"
  proof (intro allI impI)
    fix i assume "i < B'"
    also have "B' \<le> capacity B' ps' k' cs" by (rule capacity_ge)
    finally show "heap i = NUL" using hcap by simp
  qed
  have pos: "0 < length c" using c by simp
  have kF: "k \<le> length ?F" "?n \<le> length ?F" using cl pos by arith+
  let ?t = "s\<lparr>buffer := write_mem (buffer s) k c,
               total_bytes_received := int k + int (length c)\<rparr>"
  have r: "recv (Data c # ?conn) (int B - int k) = (int (length c), c, ?conn)"
    using n by simp
  have unfold: "receive_loop hr heap s (Data c # ?conn) =
      (case inner_loop hr heap ?t of
         Break s' \<Rightarrow> receive_loop hr heap s' ?conn
       | AllDone s' \<Rightarrow> (Returned EXIT_SUCCESS, s')
       | Fault \<Rightarrow> (Undefined, s))"
    using pos n Cons.prems(1,2)
    by (subst receive_loop.simps) (auto simp: r simp del: recv.simps)
  have "fills (write_mem (buffer s) k (take (length c) (drop k ?F))) B (take ?n ?F)"
    using Cons.prems(3) kF(1) n by (rule fills_write)
  then have ht: "fills (buffer ?t) B (take ?n ?F)" using ceq by simp
  have "\<exists>s' done. ps = done @ ps' \<and>
           inner_loop hr heap ?t = (if stops hr (handled ?t) done then AllDone s' else Break s') \<and>
           handled s' = deliveries hr (handled ?t) done \<and>
           (\<not> stops hr (handled ?t) done \<and> ps' \<noteq> [] \<longrightarrow>
              buffer_size s' = int B' \<and> total_bytes_received s' = int k' \<and>
              fills (buffer s') B' (take k' (concat (map frame ps'))))"
  proof (rule inner_loop_lands)
    show "buffer_size ?t = int B" using Cons.prems(1) by simp
    show "fills (buffer ?t) B (take ?n ?F)" by (rule ht)
    show "total_bytes_received ?t = int ?n" by simp
    show "?n \<le> B" by (rule n)
    show "?n \<le> length ?F" by (rule kF(2))
    show "\<forall>p \<in> set ps. NUL \<notin> set p \<and> length p < 1000000000" by (rule Cons.prems(4))
    show "\<forall>i < B'. heap i = NUL" by (rule hB)
    show "11 < B" by (rule Cons.prems(6))
    show "lands B ps ?n = Some (B', ps', k')" by (rule l)
  qed
  then obtain s' d where d: "ps = d @ ps'"
      "inner_loop hr heap ?t = (if stops hr (handled s) d then AllDone s' else Break s')"
      "handled s' = deliveries hr (handled s) d"
      "\<not> stops hr (handled s) d \<and> ps' \<noteq> [] \<longrightarrow>
         buffer_size s' = int B' \<and> total_bytes_received s' = int k' \<and>
         fills (buffer s') B' (take k' (concat (map frame ps')))"
    by auto
  have goal: "fst (receive_loop hr heap s (Data c # ?conn)) = Returned EXIT_SUCCESS \<and>
         handled (snd (receive_loop hr heap s (Data c # ?conn))) = deliveries hr (handled s) ps"
  proof (cases "stops hr (handled s) d")
    case True
    then have "receive_loop hr heap s (Data c # ?conn) = (Returned EXIT_SUCCESS, s')"
      using unfold d(2) by simp
    then show ?thesis
      using True d(1,3) by (simp add: deliveries_append)
  next
    case False
    then have eq: "receive_loop hr heap s (Data c # ?conn) = receive_loop hr heap s' ?conn"
      using unfold d(2) by simp
    have hs': "handled s' = handled s @ d"
      using d(3) False by (simp add: deliveries_no_stop)
    show ?thesis
    proof (cases "ps' = []")
      case True
      then have "cs = []" using w by (simp add: reads_wait_done)
      then have "receive_loop hr heap s (Data c # ?conn) = (Returned EXIT_SUCCESS, s')"
        using eq by (simp add: receive_loop_closed)
      then show ?thesis using hs' d(1) True False by (simp add: deliveries_no_stop)
    next
      case ne: False
      from d(4) False ne have f: "buffer_size s' = int B'" "total_bytes_received s' = int k'"
        "fills (buffer s') B' (take k' (concat (map frame ps')))" by simp_all
      have nul': "\<forall>p \<in> set ps'. NUL \<notin> set p \<and> length p < 1000000000"
        using Cons.prems(4) d(1) by simp
      have B': "11 < B'" using lands_capacity [OF l] Cons.prems(6) by simp
      from Cons.IH [OF f nul' hcap B' w]
      show ?thesis
        unfolding eq using False hs' d(1) by (simp add: deliveries_append)
    qed
  qed
  then show ?case by simp
qed

lemma reads_wait_step:
  assumes "c \<noteq> []" and "k + length c \<le> B"
    and "take (length c) (drop k (concat (map frame ps))) = c"
    and "lands B ps (k + length c) = Some (B', ps', k')"
    and "reads_wait B' ps' k' cs"
  shows "reads_wait B ps k (c # cs)"
  by (subst reads_wait.simps) (simp only: assms option.case prod.case simp_thms)

lemma capacity_step:
  "lands B ps (k + length c) = Some (B', ps', k') \<Longrightarrow>
   capacity B ps k (c # cs) = capacity B' ps' k' cs"
  by simp

subsection \<open>The claim about split reads\<close>




text \<open>
  Why the buffer must start zero-filled: after the last frame of a read the inner loop
  goes on to the bytes behind it. When the heap happens to hold \<^verbatim>\<open>0 \<close> there, the
  callback is passed an empty message that no frame carried.
\<close>

lemma receive_uninitialised_heap_phantom:
  "handled (snd (tcp_client_receive_response (\<lambda>tr. False) (write_mem zero_heap 7 ''0 '')
          [Data ''5 hello''])) = [''hello'', '''']"
  by (simp add: run_simps)

text \<open>
  Why the payloads must be free of NUL bytes: the callback is passed a C string, which
  ends at the first NUL of the payload.
\<close>

lemma receive_nul_payload_truncated:
  "frame [CHR ''a'', NUL, CHR ''b''] = [CHR ''3'', SPC, CHR ''a'', NUL, CHR ''b''] \<and>
   handled (snd (tcp_client_receive_response (\<lambda>tr. False) zero_heap
          [Data [CHR ''3'', SPC, CHR ''a'', NUL, CHR ''b'']])) = [''a'']"
  by (simp add: run_simps frame_def dec.simps digit_char_def)

text \<open>
  Why the bytes held and the frame at their front must fit the capacity together:
  \<^verbatim>\<open>memmove\<close> leaves the last \<^verbatim>\<open>bytes_read\<close> bytes of the buffer as they were, and
  when the bytes held reached into that part, it keeps bytes of the frame just
  handled, which the next scans from the start of the buffer reach. Two whole frames
  of 513 and 511 bytes, one per read, make the callback receive a third, empty
  message: the first payload ends in \<^verbatim>\<open>0 \<close>, and these two bytes are still in the
  buffer behind the second frame.
\<close>

lemma receive_stale_tail_phantom:
  "length (frame (replicate 507 (CHR ''x'') @ ''0 '')) = 513 \<and>
   length (frame (replicate 507 (CHR ''y''))) = 511 \<and>
   fst (tcp_client_receive_response (\<lambda>tr. False) zero_heap
      [Data (frame (replicate 507 (CHR ''x'') @ ''0 '')),
       Data (frame (replicate 507 (CHR ''y'')))]) = Returned EXIT_SUCCESS \<and>
   handled (snd (tcp_client_receive_response (\<lambda>tr. False) zero_heap
      [Data (frame (replicate 507 (CHR ''x'') @ ''0 '')),
       Data (frame (replicate 507 (CHR ''y'')))])) =
     [replicate 507 (CHR ''x'') @ ''0 '', replicate 507 (CHR ''y''), '''']"
proof -
  let ?p1 = "replicate 507 (CHR ''x'') @ ''0 ''" and ?p2 = "replicate 507 (CHR ''y'')"
  let ?f1 = "frame ?p1" and ?f2 = "frame ?p2"
  let ?h = "\<lambda>tr::string list. False"
  have f1: "?f1 = ''509 '' @ ?p1" by (simp add: frame_def dec.simps digit_char_def)
  have f2: "?f2 = ''507 '' @ ?p2" by (simp add: frame_def dec.simps digit_char_def)
  have fe: "frame [] = ''0 ''" by (simp add: frame_def dec.simps digit_char_def)
  have l1: "length ?f1 = 513" unfolding f1 by simp
  have l2: "length ?f2 = 511" unfolding f2 by simp
  have nul1: "NUL \<notin> set ?p1" by simp
  have nul2: "NUL \<notin> set ?p2" by simp
  let ?s0 = "\<lparr>buffer = zero_heap, buffer_size = 1024, total_bytes_received = 0, handled = []\<rparr>"
  let ?m1 = "write_mem zero_heap 0 ?f1"
  let ?t1 = "\<lparr>buffer = ?m1, buffer_size = 1024, total_bytes_received = 513, handled = []\<rparr>"
  let ?m1' = "memmove_down ?m1 513 511"
  let ?s1 = "\<lparr>buffer = ?m1', buffer_size = 1024, total_bytes_received = 0, handled = [?p1]\<rparr>"
  let ?m2 = "write_mem ?m1' 0 ?f2"
  let ?t2 = "\<lparr>buffer = ?m2, buffer_size = 1024, total_bytes_received = 511, handled = [?p1]\<rparr>"
  let ?m2' = "memmove_down ?m2 511 513"
  let ?s2 = "\<lparr>buffer = ?m2', buffer_size = 1024, total_bytes_received = 0, handled = [?p1, ?p2]\<rparr>"
  let ?m3 = "memmove_down ?m2' 2 1022"
  let ?s3 = "\<lparr>buffer = ?m3, buffer_size = 1024, total_bytes_received = - 2,
              handled = [?p1, ?p2, []]\<rparr>"
  let ?s4 = "\<lparr>buffer = ?m3, buffer_size = 1024, total_bytes_received = 0,
              handled = [?p1, ?p2, []]\<rparr>"
  have two: "Suc (Suc 0) = 2" by simp
  have z: "fills zero_heap 1024 []" by (simp add: fills_def zero_heap_def)
  have h1: "fills ?m1 1024 (?f1 @ [])" using fills_write_front [OF z, of ?f1] by simp
  have step1: "decode_step ?h zero_heap ?t1 = Again ?s1"
    using decode_step_whole [of ?t1 1024 ?p1 "[]" ?h zero_heap] h1 nul1
    by (simp add: l1)
  have "?m1 513 = NUL" by (simp add: write_mem_def l1 zero_heap_def)
  then have "buffer ?s1 0 = NUL" by (simp add: memmove_down_def)
  then have step2: "decode_step ?h zero_heap ?s1 = Leave (Break (?s1\<lparr>total_bytes_received := 0\<rparr>))"
    by (rule decode_step_NUL_first) simp
  have inner1: "inner_loop ?h zero_heap ?t1 = Break ?s1"
    by (subst inner_loop.simps, simp only: step1 step.case,
        subst inner_loop.simps, simp only: step2 step.case) simp
  have h2: "fills ?m2 1024 (?f2 @ ''0 '')"
    unfolding fills_def
  proof (intro allI impI)
    fix i :: nat assume "i < 1024"
    consider "i < 511" | "i = 511" | "i = 512" | "513 \<le> i" by linarith
    then show "?m2 i = (if i < length (?f2 @ ''0 '') then (?f2 @ ''0 '') ! i else NUL)"
    proof cases
      case 1
      then show ?thesis by (simp add: write_mem_def l2 nth_append)
    next
      case 2
      have "?m2 511 = ?f1 ! 511"
        by (simp add: write_mem_def memmove_down_def l1 l2)
      also have "\<dots> = CHR ''0''" unfolding f1 by (simp add: nth_append)
      finally show ?thesis using 2 by (simp add: l2 nth_append)
    next
      case 3
      have "?m2 512 = ?f1 ! 512"
        by (simp add: write_mem_def memmove_down_def l1 l2)
      also have "\<dots> = SPC" unfolding f1 by (simp add: nth_append)
      finally show ?thesis using 3 by (simp add: l2 nth_append)
    next
      case 4
      then have "?m2 i = NUL"
        by (simp add: write_mem_def memmove_down_def l1 l2 zero_heap_def)
      then show ?thesis using 4 by (simp add: l2)
    qed
  qed
  have step3: "decode_step ?h zero_heap ?t2 = Again ?s2"
    using decode_step_whole [of ?t2 1024 ?p2 "''0 ''" ?h zero_heap] h2 nul2
    by (simp add: l2)
  have h2': "fills ?m2' 1024 ''0 ''"
    using fills_memmove [of ?m2 1024 ?f2 "''0 ''"] h2 by (simp add: l2)
  then have h2'': "fills (buffer ?s2) 1024 (frame [] @ [])" by (simp add: fe)
  have step4: "decode_step ?h zero_heap ?s2 = Again ?s3"
    using decode_step_whole [of ?s2 1024 "[]" "[]" ?h zero_heap] h2''
    by (simp add: fe two)
  have h3: "fills ?m3 1024 []"
    using fills_memmove [of ?m2' 1024 "''0 ''" "[]"] h2' by (simp add: two)
  have step5: "inner_loop ?h zero_heap ?s3 = Break ?s4"
    using decode_step_nothing [of ?s3 1024 ?h zero_heap] h3 by simp
  have inner2: "inner_loop ?h zero_heap ?t2 = Break ?s4"
    by (subst inner_loop.simps, simp only: step3 step.case,
        subst inner_loop.simps, simp only: step4 step.case, rule step5)
  have r1: "recv [Data ?f1, Data ?f2] 1024 = (513, ?f1, [Data ?f2])"
    by (simp add: l1)
  have r2: "recv [Data ?f2] 1024 = (511, ?f2, [])"
    by (simp add: l2)
  have loop2: "receive_loop ?h zero_heap ?s1 [Data ?f2] = (Returned EXIT_SUCCESS, ?s4)"
    by (subst receive_loop.simps) (simp add: r2 inner2 receive_loop_closed del: recv.simps)
  have loop1: "receive_loop ?h zero_heap ?s0 [Data ?f1, Data ?f2] = (Returned EXIT_SUCCESS, ?s4)"
    by (subst receive_loop.simps) (simp add: r1 inner1 loop2 del: recv.simps)
  have run: "tcp_client_receive_response ?h zero_heap [Data ?f1, Data ?f2] =
      (Returned EXIT_SUCCESS, ?s4)"
    unfolding tcp_client_receive_response_def DEFAULT_BUFFER_SIZE_def
    using loop1 by (simp add: zero_heap_def)
  show ?thesis unfolding run using l1 l2 by simp
qed

text \<open>
  A last frame that is longer than the buffer: the frames of \<^verbatim>\<open>abc\<close> and of 2000 bytes
  \<^verbatim>\<open>x\<close> arrive in two reads, the first of which ends inside the second payload. The
  buffer is doubled once, to 2048 bytes, and both payloads reach the callback.
\<close>

lemma receive_last_frame_grows:
  "reads_wait 1024 [''abc'', replicate 2000 (CHR ''x'')] 0
     [''3 abc2000 '' @ replicate 1000 (CHR ''x''), replicate 1000 (CHR ''x'')] \<and>
   capacity 1024 [''abc'', replicate 2000 (CHR ''x'')] 0
     [''3 abc2000 '' @ replicate 1000 (CHR ''x''), replicate 1000 (CHR ''x'')] = 2048 \<and>
   fst (tcp_client_receive_response (\<lambda>tr. False) zero_heap
          [Data (''3 abc2000 '' @ replicate 1000 (CHR ''x'')), Data (replicate 1000 (CHR ''x''))]) =
     Returned EXIT_SUCCESS \<and>
   handled (snd (tcp_client_receive_response (\<lambda>tr. False) zero_heap
          [Data (''3 abc2000 '' @ replicate 1000 (CHR ''x'')), Data (replicate 1000 (CHR ''x''))])) =
     [''abc'', replicate 2000 (CHR ''x'')]"
proof -
  let ?x = "CHR ''x''"
  let ?big = "replicate 2000 ?x"
  let ?ps = "[''abc'', ?big]"
  let ?c1 = "''3 abc2000 '' @ replicate 1000 ?x" and ?c2 = "replicate 1000 ?x"
  let ?reads = "[?c1, ?c2]"
  let ?h = "\<lambda>tr::string list. False"
  have f1: "frame ''abc'' = ''3 abc''" by (simp add: frame_def dec.simps digit_char_def)
  have f2: "frame ?big = ''2000 '' @ ?big"
    by (simp add: frame_def dec.simps digit_char_def)
  have d: "dec 2000 = ''2000''" by (simp add: dec.simps digit_char_def)
  have split: "?big = ?c2 @ ?c2"
    by (simp add: replicate_add [symmetric])
  have f2s: "frame ?big = ''2000 '' @ ?c2 @ ?c2"
    by (simp only: f2 split [symmetric])
  have n1: "0 + length ?c1 = 1010" by simp
  have n2: "1005 + length ?c2 = 2005" by simp
  have l1: "lands 1024 ?ps (0 + length ?c1) = Some (2048, [?big], 1005)"
    unfolding n1 by (simp add: f1 f2 d)
  have l2: "lands 2048 [?big] (1005 + length ?c2) = Some (2048, [], 0)"
    unfolding n2 by (simp add: f2)
  have c1: "take (length ?c1) (drop 0 (concat (map frame ?ps))) = ?c1"
    by (simp add: f1 f2s)
  have c2: "take (length ?c2) (drop 1005 (concat (map frame [?big]))) = ?c2"
    by (simp add: f2s)
  have e: "reads_wait 2048 [] 0 []" by simp
  have ok2: "reads_wait 2048 [?big] 1005 [?c2]"
    by (rule reads_wait_step [OF _ _ c2 l2 e]) simp_all
  have ok: "reads_wait 1024 ?ps 0 ?reads"
    by (rule reads_wait_step [OF _ _ c1 l1 ok2]) simp_all
  have cap: "capacity 1024 ?ps 0 ?reads = 2048"
    unfolding capacity_step [OF l1] capacity_step [OF l2] by simp
  have heap: "\<forall>i < capacity 1024 ?ps 0 ?reads. zero_heap i = NUL" by (simp add: zero_heap_def)
  have nul: "\<forall>p \<in> set ?ps. NUL \<notin> set p \<and> length p < 1000000000" by simp
  have ds: "deliveries ?h [] ?ps = ?ps" by simp
  have m: "map Data ?reads = [Data ?c1, Data ?c2]"
    by simp
  let ?s = "\<lparr>buffer = zero_heap, buffer_size = DEFAULT_BUFFER_SIZE, total_bytes_received = 0,
        handled = []\<rparr>"
  have "fills (buffer ?s) 1024 (take 0 (concat (map frame ?ps)))"
    by (simp add: fills_def zero_heap_def)
  from receive_loop_waits [of ?s 1024 0 ?ps ?reads zero_heap ?h, OF _ _ this nul heap _ ok]
  have r: "fst (receive_loop ?h zero_heap ?s (map Data ?reads)) = Returned EXIT_SUCCESS \<and>
     handled (snd (receive_loop ?h zero_heap ?s (map Data ?reads))) = deliveries ?h [] ?ps"
    by (simp add: DEFAULT_BUFFER_SIZE_def)
  have run: "fst (tcp_client_receive_response ?h zero_heap [Data ?c1, Data ?c2]) =
       Returned EXIT_SUCCESS \<and>
     handled (snd (tcp_client_receive_response ?h zero_heap [Data ?c1, Data ?c2])) = ?ps"
    using r unfolding m ds tcp_client_receive_response_def .
  show ?thesis
    by (rule conjI [OF ok conjI [OF cap run]])
qed

section \<open>Further properties\<close>

subsection \<open>The action words\<close>

text \<open>
  \<open>is_valid_action\<close> holds exactly of the five lower-case literals, compared byte for
  byte; a word that differs from one of them only in case is rejected, and a script
  line that starts with such a word and a space, holds no NUL byte behind them and ends
  in its newline is skipped: reading goes on with the next line.
\<close>

theorem is_valid_action_exact:
  "(is_valid_action a \<longleftrightarrow>
      a \<in> {''uppercase'', ''lowercase'', ''reverse'', ''shuffle'', ''random''}) \<and>
   (\<forall>lit \<in> set actions. differs_only_in_case a lit \<longrightarrow>
      \<not> is_valid_action a \<and>
      (\<forall>msg rest. NUL \<notin> set msg \<longrightarrow>
         tcp_client_get_line ((a @ SPC # msg @ [LF]) # rest) = tcp_client_get_line rest))"
proof (intro conjI ballI impI allI)
  show "is_valid_action a \<longleftrightarrow>
      a \<in> {''uppercase'', ''lowercase'', ''reverse'', ''shuffle'', ''random''}"
    by (simp add: is_valid_action_set actions_def)
next
  fix lit assume "lit \<in> set actions" "differs_only_in_case a lit"
  then show "\<not> is_valid_action a" by (rule case_variant_invalid(1))
next
  fix lit msg rest assume l: "lit \<in> set actions" "differs_only_in_case a lit"
    and m: "NUL \<notin> set msg"
  note inv = case_variant_invalid [OF l]
  have "scan_line (a @ SPC # msg @ [LF]) = Skip"
    using scan_line_wellformed [OF inv(2) inv(3) inv(4) m] inv(1) by simp
  then show "tcp_client_get_line ((a @ SPC # msg @ [LF]) # rest) = tcp_client_get_line rest"
    by simp
qed

text \<open>The theorem at \<^verbatim>\<open>UPPERCASE\<close>: rejected, and its line is skipped.\<close>

theorem is_valid_action_exact_witness:
  "differs_only_in_case ''UPPERCASE'' ''uppercase'' \<and> \<not> is_valid_action ''UPPERCASE'' \<and>
   NUL \<notin> set ''hello'' \<and>
   tcp_client_get_line [''UPPERCASE hello'' @ [LF], ''uppercase hello'' @ [LF]] =
     (GotLine 16 ''uppercase'' (Some ''hello''), [])"
proof -
  have d: "differs_only_in_case ''UPPERCASE'' ''uppercase''"
    by (simp add: differs_only_in_case_def tolower_def)
  have m: "''uppercase'' \<in> set actions"
    by (simp add: actions_def)
  have n: "NUL \<notin> set ''hello''" by simp
  have "\<forall>lit \<in> set actions. differs_only_in_case ''UPPERCASE'' lit \<longrightarrow>
      \<not> is_valid_action ''UPPERCASE'' \<and>
      (\<forall>msg rest. NUL \<notin> set msg \<longrightarrow>
         tcp_client_get_line ((''UPPERCASE'' @ SPC # msg @ [LF]) # rest) =
           tcp_client_get_line rest)"
    using is_valid_action_exact [of "''UPPERCASE''"] by (rule conjunct2)
  then have "differs_only_in_case ''UPPERCASE'' ''uppercase'' \<longrightarrow>
      \<not> is_valid_action ''UPPERCASE'' \<and>
      (\<forall>msg rest. NUL \<notin> set msg \<longrightarrow>
         tcp_client_get_line ((''UPPERCASE'' @ SPC # msg @ [LF]) # rest) =
           tcp_client_get_line rest)"
    using m by (rule bspec)
  then have both: "\<not> is_valid_action ''UPPERCASE'' \<and>
      (\<forall>msg rest. NUL \<notin> set msg \<longrightarrow>
         tcp_client_get_line ((''UPPERCASE'' @ SPC # msg @ [LF]) # rest) =
           tcp_client_get_line rest)"
    using d by (rule mp)
  then have 1: "\<not> is_valid_action ''UPPERCASE''" by (rule conjunct1)
  from both have "\<forall>msg rest. NUL \<notin> set msg \<longrightarrow>
         tcp_client_get_line ((''UPPERCASE'' @ SPC # msg @ [LF]) # rest) =
           tcp_client_get_line rest" by (rule conjunct2)
  then have "NUL \<notin> set ''hello'' \<longrightarrow>
      tcp_client_get_line ((''UPPERCASE'' @ SPC # ''hello'' @ [LF]) # [''uppercase hello'' @ [LF]]) =
        tcp_client_get_line [''uppercase hello'' @ [LF]]"
    by (elim allE)
  from this n
  have 2: "tcp_client_get_line ((''UPPERCASE'' @ SPC # ''hello'' @ [LF]) # [''uppercase hello'' @ [LF]]) =
        tcp_client_get_line [''uppercase hello'' @ [LF]]"
    by (rule mp)
  have "tcp_client_get_line [''uppercase hello'' @ [LF]] =
          (GotLine 16 ''uppercase'' (Some ''hello''), [])"
    by (simp add: scan_line_def cstr_def isspace_def is_valid_action_set actions_def)
  with 2
  have "tcp_client_get_line [''UPPERCASE hello'' @ [LF], ''uppercase hello'' @ [LF]] =
     (GotLine 16 ''uppercase'' (Some ''hello''), [])"
    by simp
  with d 1 n show ?thesis by (intro conjI)
qed

subsection \<open>Requests below the limit of the allocation\<close>

lemma c_int_small: "n < 2 ^ 31 \<Longrightarrow> c_int n = int n"
  by (simp add: c_int_def Let_def)

lemma request_frame_frame:
  "length message < 2 ^ 31 \<Longrightarrow> request_frame action message = action @ SPC # frame message"
  by (simp add: request_frame_def frame_def c_int_small sprintf_d_def)

lemma valid_action_length: "is_valid_action action \<Longrightarrow> length action \<le> 9"
  by (auto simp: is_valid_action_set actions_def)

lemma build_request_fits:
  assumes "is_valid_action action" "length message < 10000000"
  shows "build_request action message = Some (action @ SPC # frame message)"
proof -
  have m: "length message < 2 ^ 31" using assms(2) by simp
  have a: "length action \<le> 9" using assms(1) by (rule valid_action_length)
  have "length message < 10 ^ 7" using assms(2) by simp
  then have d: "length (dec (length message)) \<le> 7" by (rule length_dec) simp
  have "length action + length message + PAYLOAD_MEMORY_BUFFER < 2 ^ 31"
    using a assms(2) by (simp add: PAYLOAD_MEMORY_BUFFER_def)
  then have p: "c_int (length action + length message + PAYLOAD_MEMORY_BUFFER) =
      int (length action + length message + PAYLOAD_MEMORY_BUFFER)"
    by (rule c_int_small)
  show ?thesis
    unfolding build_request_def Let_def p request_frame_frame [OF m]
    using d by (simp add: frame_def PAYLOAD_MEMORY_BUFFER_def)
qed

lemma send_loop_whole:
  "req \<noteq> [] \<Longrightarrow> length req \<le> k \<Longrightarrow>
   send_loop req (int (length req)) 0 [Accepts k] [] = (Some (Returned EXIT_SUCCESS), req)"
  by (simp add: Let_def min_def)

text \<open>
  For a valid action and a message shorter than 10,000,000 bytes the request fits its
  allocation and is the action, a space and the frame of the message; when the socket
  takes the whole request in the first write, exactly these bytes go on the wire, once,
  and the call returns \<^verbatim>\<open>EXIT_SUCCESS\<close>.
\<close>

theorem send_request_whole_write:
  assumes "is_valid_action action" "length message < 10000000"
    and "length (request_frame action message) \<le> k"
  shows "tcp_client_send_request action message [Accepts k] =
           (Some (Returned EXIT_SUCCESS), request_frame action message) \<and>
         request_frame action message = action @ SPC # frame message"
proof -
  let ?req = "action @ SPC # frame message"
  have m: "length message < 2 ^ 31" using assms(2) by simp
  have rf: "request_frame action message = ?req" using m by (rule request_frame_frame)
  have b: "build_request action message = Some ?req"
    using assms(1,2) by (rule build_request_fits)
  have a: "length action \<le> 9" using assms(1) by (rule valid_action_length)
  have "length message < 10 ^ 7" using assms(2) by simp
  then have d: "length (dec (length message)) \<le> 7" by (rule length_dec) simp
  have "length ?req < 2 ^ 31" using a d assms(2) by (simp add: frame_def)
  then have c: "c_int (length ?req) = int (length ?req)" by (rule c_int_small)
  have pos: "0 < int (length ?req)" by simp
  have k: "length ?req \<le> k" using assms(3) rf by simp
  have "send_loop ?req (int (length ?req)) 0 [Accepts k] [] =
          (Some (Returned EXIT_SUCCESS), ?req)"
    using _ k by (rule send_loop_whole) simp
  then show ?thesis
    unfolding tcp_client_send_request_def b option.case c rf by simp
qed

text \<open>The theorem at \<^verbatim>\<open>uppercase hello\<close> and a socket that takes 17 bytes.\<close>

theorem send_request_whole_write_witness:
  "is_valid_action ''uppercase'' \<and>
   tcp_client_send_request ''uppercase'' ''hello'' [Accepts 17] =
     (Some (Returned EXIT_SUCCESS), ''uppercase 5 hello'')"
proof -
  have v: "is_valid_action ''uppercase''" by (simp add: is_valid_action_set actions_def)
  have l: "length ''hello'' < 10000000" by simp
  have k: "length (request_frame ''uppercase'' ''hello'') \<le> 17" by (simp add: frame_hello)
  from send_request_whole_write [OF v l k] v show ?thesis
    by (simp add: frame_hello)
qed

subsection \<open>Resynchronisation\<close>

text \<open>
  What the code does where the specification discards buffered bytes: when the scan
  from the start of the buffer meets a NUL before any space, or meets a space while
  the first byte is no digit, the count of received bytes is set to 0 and the inner
  loop is left for the next \<^verbatim>\<open>recv\<close>; nothing is reported to the caller.
\<close>

theorem decode_step_desync_reset:
  assumes "strchr_mem (buffer s) 0 (nat (buffer_size s)) SPC = NotFound \<or>
           (\<exists>p. strchr_mem (buffer s) 0 (nat (buffer_size s)) SPC = Found p) \<and>
             \<not> isdigit (buffer s 0)"
  shows "decode_step handle_response heap s = Leave (Break (s\<lparr>total_bytes_received := 0\<rparr>)) \<and>
         inner_loop handle_response heap s = Break (s\<lparr>total_bytes_received := 0\<rparr>)"
proof -
  have "decode_step handle_response heap s = Leave (Break (s\<lparr>total_bytes_received := 0\<rparr>))"
    using assms by (auto simp: decode_step_def)
  then show ?thesis by (subst inner_loop.simps) simp
qed

text \<open>The theorem at a buffer that holds \<^verbatim>\<open>hello world\<close>.\<close>

theorem decode_step_desync_reset_witness:
  "strchr_mem (write_mem zero_heap 0 ''hello world'') 0 (nat 1024) SPC = Found 5 \<and>
   \<not> isdigit (write_mem zero_heap 0 ''hello world'' 0) \<and>
   inner_loop (\<lambda>tr. False) zero_heap
     \<lparr>buffer = write_mem zero_heap 0 ''hello world'', buffer_size = 1024,
      total_bytes_received = 11, handled = []\<rparr> =
   Break \<lparr>buffer = write_mem zero_heap 0 ''hello world'', buffer_size = 1024,
      total_bytes_received = 0, handled = []\<rparr>"
proof -
  let ?s = "\<lparr>buffer = write_mem zero_heap 0 ''hello world'', buffer_size = 1024,
      total_bytes_received = 11, handled = []\<rparr>"
  have 1: "strchr_mem (write_mem zero_heap 0 ''hello world'') 0 (nat 1024) SPC = Found 5"
    by (simp add: write_mem_def)
  have 2: "\<not> isdigit (write_mem zero_heap 0 ''hello world'' 0)"
    by (simp add: write_mem_def isdigit_def)
  have "strchr_mem (buffer ?s) 0 (nat (buffer_size ?s)) SPC = NotFound \<or>
           (\<exists>p. strchr_mem (buffer ?s) 0 (nat (buffer_size ?s)) SPC = Found p) \<and>
             \<not> isdigit (buffer ?s 0)"
    using 1 2 by simp
  from decode_step_desync_reset [OF this, of "\<lambda>tr. False" zero_heap] 1 2
  show ?thesis by simp
qed


subsection \<open>The sender's length field, read by the reassembler\<close>

text \<open>
  The sender and the reassembler agree on the length-prefixed part of a frame. For a
  valid action and a NUL-free message whose frame has at most 512 bytes, the request is
  the action, a space and the frame of the message; the action is the text before the
  first space; and the reassembler, given that frame in one read into a zero-filled
  buffer, passes exactly the message to the callback.
\<close>

theorem request_decoded_by_reassembler:
  assumes "is_valid_action action" and "NUL \<notin> set message"
    and "length (frame message) \<le> 512" and "\<forall>i < 1024. heap i = NUL"
  shows "build_request action message = Some (action @ SPC # frame message) \<and>
         takeWhile (\<lambda>c. c \<noteq> SPC) (action @ SPC # frame message) = action \<and>
         fst (tcp_client_receive_response hr heap [Data (frame message)]) =
           Returned EXIT_SUCCESS \<and>
         handled (snd (tcp_client_receive_response hr heap [Data (frame message)])) = [message]"
proof -
  have "length message \<le> 512" using assms(3) by (simp add: frame_def)
  then have "length message < 10000000" by simp
  with assms(1) have 1: "build_request action message = Some (action @ SPC # frame message)"
    by (rule build_request_fits)
  have "\<forall>c \<in> set action. c \<noteq> SPC"
    using assms(1) by (auto simp: is_valid_action_set actions_def)
  then have 2: "takeWhile (\<lambda>c. c \<noteq> SPC) (action @ SPC # frame message) = action"
    by (simp add: takeWhile_append)
  let ?s = "\<lparr>buffer = heap, buffer_size = DEFAULT_BUFFER_SIZE, total_bytes_received = 0,
        handled = []\<rparr>"
  have h: "fills (buffer ?s) 1024 (take 0 (concat (map frame [message])))"
    using assms(4) by (simp add: fills_def)
  have n: "\<forall>p \<in> set [message]. NUL \<notin> set p \<and> length p < 1000000000"
    using assms(2) \<open>length message \<le> 512\<close> by simp
  have r: "reads_wait 1024 [message] 0 [frame message]"
    using assms(3) by (simp add: frame_nonempty)
  have c: "\<forall>i < capacity 1024 [message] 0 [frame message]. heap i = NUL"
    using assms(3,4) by simp
  from receive_loop_waits [of ?s 1024 0 "[message]" "[frame message]" heap hr, OF _ _ h n c _ r]
  have 3: "fst (tcp_client_receive_response hr heap [Data (frame message)]) =
           Returned EXIT_SUCCESS \<and>
         handled (snd (tcp_client_receive_response hr heap [Data (frame message)])) = [message]"
    by (simp add: tcp_client_receive_response_def DEFAULT_BUFFER_SIZE_def)
  from 1 2 3 show ?thesis by simp
qed

text \<open>The theorem at \<^verbatim>\<open>uppercase hello\<close>.\<close>

theorem request_decoded_by_reassembler_witness:
  "build_request ''uppercase'' ''hello'' = Some (''uppercase'' @ SPC # ''5 hello'') \<and>
   frame ''hello'' = ''5 hello'' \<and>
   handled (snd (tcp_client_receive_response (\<lambda>tr. True) zero_heap [Data ''5 hello''])) =
     [''hello'']"
proof -
  have f: "frame ''hello'' = ''5 hello''"
    by (simp add: frame_def dec.simps digit_char_def)
  have v: "is_valid_action ''uppercase''" by (simp add: is_valid_action_set actions_def)
  have n: "NUL \<notin> set ''hello''" by simp
  have l: "length (frame ''hello'') \<le> 512" by (simp add: f)
  have z: "\<forall>i < 1024. zero_heap i = NUL" by (simp add: zero_heap_def)
  from request_decoded_by_reassembler [OF v n l z, of "\<lambda>tr. True"]
  show ?thesis unfolding f by simp
qed

subsection \<open>The capacity of the buffer\<close>

text \<open>
  The capacity never shrinks: no run of the inner loop and no run of the receive loop
  ends with a smaller capacity than it started from. When the length prefix (a digit
  first, a space within the first ten bytes) declares more bytes than the capacity
  leaves after the prefix and the space, the inner loop doubles the capacity exactly,
  keeps every byte of the old allocation, and breaks; and after a break the receive
  loop goes on with the next \<^verbatim>\<open>recv\<close> on the state the inner loop left.
\<close>

theorem capacity_never_shrinks_and_doubles:
  "(\<forall>out s'. receive_loop h heap s conn = (out, s') \<longrightarrow> buffer_size s \<le> buffer_size s') \<and>
   (\<forall>s'. inner_loop h heap s = Break s' \<or> inner_loop h heap s = AllDone s' \<longrightarrow>
      buffer_size s \<le> buffer_size s') \<and>
   (\<forall>p. strchr_mem (buffer s) 0 (nat (buffer_size s)) SPC = Found p \<and> isdigit (buffer s 0) \<and>
        p < 10 \<and> buffer_size s - int p - 1 < atoi (mem_bytes (buffer s) 0 p) \<longrightarrow>
        inner_loop h heap s =
          Break (s\<lparr>buffer := realloc (buffer s) (nat (buffer_size s)) heap,
                   buffer_size := buffer_size s * 2\<rparr>) \<and>
        (\<forall>i. i < nat (buffer_size s) \<longrightarrow>
           realloc (buffer s) (nat (buffer_size s)) heap i = buffer s i)) \<and>
   (\<forall>n bytes conn' u.
        recv conn (buffer_size s - total_bytes_received s) = (n, bytes, conn') \<and> 0 < n \<and>
        0 \<le> total_bytes_received s \<and> total_bytes_received s + n \<le> buffer_size s \<and>
        inner_loop h heap
          (s\<lparr>buffer := write_mem (buffer s) (nat (total_bytes_received s)) bytes,
             total_bytes_received := total_bytes_received s + n\<rparr>) = Break u \<longrightarrow>
        receive_loop h heap s conn = receive_loop h heap u conn')"
proof (intro conjI allI impI)
  fix out s' assume "receive_loop h heap s conn = (out, s')"
  then show "buffer_size s \<le> buffer_size s'" by (rule receive_loop_size)
next
  fix s' assume "inner_loop h heap s = Break s' \<or> inner_loop h heap s = AllDone s'"
  then show "buffer_size s \<le> buffer_size s'" by (rule inner_loop_size)
next
  fix p assume a: "strchr_mem (buffer s) 0 (nat (buffer_size s)) SPC = Found p \<and> isdigit (buffer s 0) \<and>
        p < 10 \<and> buffer_size s - int p - 1 < atoi (mem_bytes (buffer s) 0 p)"
  then have "decode_step h heap s =
          Leave (Break (s\<lparr>buffer := realloc (buffer s) (nat (buffer_size s)) heap,
                          buffer_size := buffer_size s * 2\<rparr>))"
    by (intro decode_step_grows) auto
  then show "inner_loop h heap s =
          Break (s\<lparr>buffer := realloc (buffer s) (nat (buffer_size s)) heap,
                   buffer_size := buffer_size s * 2\<rparr>)"
    by (subst inner_loop.simps) simp
next
  fix p i assume "i < nat (buffer_size s)"
  then show "realloc (buffer s) (nat (buffer_size s)) heap i = buffer s i"
    by (simp add: realloc_def)
next
  fix n bytes conn' u
  assume a: "recv conn (buffer_size s - total_bytes_received s) = (n, bytes, conn') \<and> 0 < n \<and>
        0 \<le> total_bytes_received s \<and> total_bytes_received s + n \<le> buffer_size s \<and>
        inner_loop h heap
          (s\<lparr>buffer := write_mem (buffer s) (nat (total_bytes_received s)) bytes,
             total_bytes_received := total_bytes_received s + n\<rparr>) = Break u"
  then show "receive_loop h heap s conn = receive_loop h heap u conn'"
    by (subst receive_loop.simps) simp
qed

text \<open>
  The theorem at a buffer of 1024 bytes that holds \<^verbatim>\<open>5000 abc\<close>: the declared 5000
  bytes exceed the 1019 left after the prefix, the capacity becomes 2048, and the bytes
  received stay where they are (the new half holds whatever the heap held).
\<close>

theorem capacity_never_shrinks_and_doubles_witness:
  "strchr_mem (write_mem zero_heap 0 ''5000 abc'') 0 (nat 1024) SPC = Found 4 \<and>
   isdigit (write_mem zero_heap 0 ''5000 abc'' 0) \<and>
   1024 - int 4 - 1 < atoi (mem_bytes (write_mem zero_heap 0 ''5000 abc'') 0 4) \<and>
   inner_loop (\<lambda>tr. False) (\<lambda>i. CHR ''?'')
     \<lparr>buffer = write_mem zero_heap 0 ''5000 abc'', buffer_size = 1024,
      total_bytes_received = 8, handled = []\<rparr> =
   Break
     \<lparr>buffer = realloc (write_mem zero_heap 0 ''5000 abc'') 1024 (\<lambda>i. CHR ''?''), buffer_size = 2048,
      total_bytes_received = 8, handled = []\<rparr> \<and>
   realloc (write_mem zero_heap 0 ''5000 abc'') 1024 (\<lambda>i. CHR ''?'') 7 = CHR ''c''"
proof -
  let ?s = "\<lparr>buffer = write_mem zero_heap 0 ''5000 abc'', buffer_size = 1024,
      total_bytes_received = 8, handled = []\<rparr>"
  let ?h = "\<lambda>i::nat. CHR ''?''"
  have 1: "strchr_mem (write_mem zero_heap 0 ''5000 abc'') 0 (nat 1024) SPC = Found 4"
    by (simp add: write_mem_def)
  have 2: "isdigit (write_mem zero_heap 0 ''5000 abc'' 0)"
    by (simp add: write_mem_def isdigit_def)
  have 3: "1024 - int 4 - 1 < atoi (mem_bytes (write_mem zero_heap 0 ''5000 abc'') 0 4)"
    by (simp add: run_simps)
  have hyp: "strchr_mem (buffer ?s) 0 (nat (buffer_size ?s)) SPC = Found 4 \<and>
      isdigit (buffer ?s 0) \<and> (4::nat) < 10 \<and>
      buffer_size ?s - int 4 - 1 < atoi (mem_bytes (buffer ?s) 0 4)"
    using 1 2 3 by simp
  note inst = capacity_never_shrinks_and_doubles [of "\<lambda>tr. False" ?h ?s "[]"]
  note third = conjunct1 [OF conjunct2 [OF conjunct2 [OF inst]]]
  from mp [OF spec [OF third, of 4] hyp]
  have "inner_loop (\<lambda>tr. False) ?h ?s =
          Break (?s\<lparr>buffer := realloc (buffer ?s) (nat (buffer_size ?s)) ?h,
                   buffer_size := buffer_size ?s * 2\<rparr>) \<and>
        (\<forall>i. i < nat (buffer_size ?s) \<longrightarrow>
           realloc (buffer ?s) (nat (buffer_size ?s)) ?h i = buffer ?s i)" .
  then have 4: "inner_loop (\<lambda>tr. False) ?h ?s =
     Break
     \<lparr>buffer = realloc (write_mem zero_heap 0 ''5000 abc'') 1024 ?h, buffer_size = 2048,
      total_bytes_received = 8, handled = []\<rparr>"
    and 5: "realloc (write_mem zero_heap 0 ''5000 abc'') 1024 ?h 7 = write_mem zero_heap 0 ''5000 abc'' 7"
    by simp_all
  have "write_mem zero_heap 0 ''5000 abc'' 7 = CHR ''c''"
    by (simp add: write_mem_def)
  with 1 2 3 4 5 show ?thesis by simp
qed

subsection \<open>One frame of any size\<close>

text \<open>
  A frame longer than the buffer that the connection holds whole is read in pieces: each \<^verbatim>\<open>recv\<close> fills the room that is left
  (\<^verbatim>\<open>buffer_size - total_bytes_received\<close>), the inner loop finds the length prefix, sees
  that fewer bytes than the payload are there, doubles the buffer with \<^verbatim>\<open>realloc\<close> and
  breaks to the next \<^verbatim>\<open>recv\<close>. That the buffer holds the bytes received followed by
  zero bytes (\<open>fills\<close>) is the invariant of that loop when the allocator hands out zeroed
  memory.
\<close>

lemma big_frame_payload:
  assumes "1024 < length (frame p)" "length p < 1000000000"
  shows "0 < length p"
proof (rule ccontr)
  assume "\<not> 0 < length p"
  then have "length p = 0" by simp
  moreover have "length (dec (length p)) \<le> 9" using assms(2) by (rule digits_le_9)
  ultimately show False using assms(1) by (simp add: frame_length)
qed

lemma grow_step:
  assumes f: "fills (buffer s) B (take B (frame p))"
    and sz: "buffer_size s = int B" and tot: "total_bytes_received s = int B"
    and B: "1024 \<le> B" "B < length (frame p)"
    and n: "length p < 1000000000"
  shows "inner_loop hr heap s =
           Break (s\<lparr>buffer := realloc (buffer s) B heap, buffer_size := int (2 * B)\<rparr>)"
proof -
  let ?k = "length (dec (length p))"
  have k9: "?k \<le> 9" using n by (rule digits_le_9)
  have kT: "?k < B" using k9 B(1) by simp
  note pf = prefix_found [OF f sz kT _ order_refl]
  have le: "B \<le> length (frame p)" using B(2) by simp
  have big: "buffer_size s - int ?k - 1 < atoi (mem_bytes (buffer s) 0 ?k)"
    unfolding pf(3) [OF le] atoi_dec sz using B(2) by (simp add: frame_length)
  have k10: "?k < 10" using k9 by simp
  have "decode_step hr heap s =
      Leave (Break (s\<lparr>buffer := realloc (buffer s) (nat (buffer_size s)) heap,
                      buffer_size := buffer_size s * 2\<rparr>))"
    using pf(1) [OF le] pf(2) [OF le] k10 big by (rule decode_step_grows)
  then show ?thesis
    unfolding sz by (subst inner_loop.simps) (simp add: mult.commute)
qed

lemma complete_step:
  assumes f: "fills (buffer s) B (frame p)"
    and sz: "buffer_size s = int B" and tot: "total_bytes_received s = int (length (frame p))"
    and B: "length (frame p) \<le> B" "length (frame p) < B \<or> 0 < length p"
    and n: "length p < 1000000000" and nul: "NUL \<notin> set p"
  shows "\<exists>s'. (inner_loop hr heap s = AllDone s' \<or> inner_loop hr heap s = Break s') \<and>
              handled s' = handled s @ [p]"
proof -
  let ?F = "frame p"
  let ?k = "length (dec (length p))" and ?L = "length (frame p)"
  have k9: "?k \<le> 9" using n by (rule digits_le_9)
  have L: "?L = ?k + 1 + length p" by (rule frame_length)
  have f': "fills (buffer s) B (take ?L ?F)" using f by simp
  have kL: "?k < ?L" using L by simp
  note pf = prefix_found [OF f' sz kL order_refl B(1)]
  have k10: "?k < 10" using k9 by simp
  have ad: "atoi (mem_bytes (buffer s) 0 ?k) = int (length p)"
    unfolding pf(3) by (rule atoi_dec)
  have fits: "\<not> buffer_size s - int ?k - 1 < int (length p)"
    unfolding sz using B(1) L by simp
  have enough: "\<not> total_bytes_received s < int (length p)"
    unfolding tot using L by simp
  have msg: "mem_bytes (buffer s) (?k + 1) (length p) = p"
  proof (rule nth_equalityI)
    show "length (mem_bytes (buffer s) (?k + 1) (length p)) = length p"
      by (simp add: length_mem_bytes)
  next
    fix i assume "i < length (mem_bytes (buffer s) (?k + 1) (length p))"
    then have i: "i < length p" by (simp add: length_mem_bytes)
    then have "?k + 1 + i < ?L" using L by simp
    then have "buffer s (?k + 1 + i) = ?F ! (?k + 1 + i)"
      using fills_nth [OF f, of "?k + 1 + i"] B(1) by simp
    then have "buffer s (?k + 1 + i) = p ! i" using i by (simp only: frame_nth)
    then show "mem_bytes (buffer s) (?k + 1) (length p) ! i = p ! i"
      using i by (simp only: mem_bytes_nth)
  qed
  have tw: "takeWhile (\<lambda>c. c \<noteq> NUL) p = p"
    using nul by (auto simp: takeWhile_eq_all_conv)
  have msg': "takeWhile (\<lambda>c. c \<noteq> NUL)
      (mem_bytes (buffer s) (?k + 1) (nat (int (length p)))) = p"
    using msg tw by simp
  have br: "int ?k + int (length p) + 1 = int ?L" using L by simp
  have nomin: "\<not> total_bytes_received s - (int ?k + int (length p) + 1) < INT_MIN"
    unfolding br tot by (simp add: INT_MIN_def)
  note step = decode_step_complete [OF pf(1) pf(2) k10 ad fits enough msg' nomin, of hr heap]
  show ?thesis
  proof (cases "hr (handled s @ [p])")
    case True
    then have "decode_step hr heap s = Leave (AllDone (s\<lparr>handled := handled s @ [p]\<rparr>))"
      using step by simp
    then have "inner_loop hr heap s = AllDone (s\<lparr>handled := handled s @ [p]\<rparr>)"
      by (subst inner_loop.simps) simp
    then show ?thesis by simp
  next
    case False
    let ?s1 = "s\<lparr>buffer := memmove_down (buffer s) ?L (B - ?L),
                  total_bytes_received := 0, handled := handled s @ [p]\<rparr>"
    have "decode_step hr heap s = Again ?s1"
      using step False unfolding br tot sz by (simp add: nat_diff_distrib')
    then have loop: "inner_loop hr heap s = inner_loop hr heap ?s1"
      by (subst inner_loop.simps) simp
    have "\<exists>u. inner_loop hr heap ?s1 = Break u \<and> handled u = handled s @ [p]"
    proof (cases "?L < B")
      case True
      then have "memmove_down (buffer s) ?L (B - ?L) 0 = buffer s ?L"
        by (simp add: memmove_down_def)
      also have "\<dots> = NUL" using fills_zero [OF f, of ?L] True by simp
      finally have z: "buffer ?s1 0 = NUL" by simp
      have "0 < buffer_size ?s1" using True sz by simp
      with z have "decode_step hr heap ?s1 = Leave (Break (?s1\<lparr>total_bytes_received := 0\<rparr>))"
        by (rule decode_step_NUL_first)
      then have "inner_loop hr heap ?s1 = Break (?s1\<lparr>total_bytes_received := 0\<rparr>)"
        by (subst inner_loop.simps) simp
      then show ?thesis by simp
    next
      case False
      then have eq: "B = ?L" using B(1) by simp
      have same: "buffer ?s1 = buffer s"
        by (simp add: memmove_down_def eq)
      have f1: "fills (buffer ?s1) B (take ?L ?F)" using f' same by simp
      have sz1: "buffer_size ?s1 = int B" using sz by simp
      note pf1 = prefix_found [OF f1 sz1 kL order_refl B(1)]
      have ad1: "atoi (mem_bytes (buffer ?s1) 0 ?k) = int (length p)"
        unfolding pf1(3) by (rule atoi_dec)
      have pos: "0 < length p" using B(2) False by blast
      have "decode_step hr heap ?s1 = Leave (Break ?s1)"
        unfolding decode_step_def pf1(1) scan.case Let_def ad1
        using pf1(2) k10 fits pos sz by simp
      then have "inner_loop hr heap ?s1 = Break ?s1"
        by (subst inner_loop.simps) simp
      then show ?thesis by simp
    qed
    then show ?thesis using loop by auto
  qed
qed


lemma receive_loop_growing:
  assumes "buffer_size s = int (2 * T)" and "total_bytes_received s = int T"
    and "fills (buffer s) (2 * T) (take T (frame p))" and "handled s = []"
    and "1024 \<le> T" and "T < length (frame p)"
    and "length p < 1000000000" and "NUL \<notin> set p" and "\<forall>i. heap i = NUL"
  shows "fst (receive_loop hr heap s [Data (drop T (frame p))]) = Returned EXIT_SUCCESS \<and>
         handled (snd (receive_loop hr heap s [Data (drop T (frame p))])) = [p]"
  using assms
proof (induction "length (frame p) - T" arbitrary: s T rule: less_induct)
  case less
  let ?F = "frame p"
  let ?L = "length ?F"
  let ?rem = "drop T ?F"
  note sz = less.prems(1) and tot = less.prems(2) and f = less.prems(3)
  show ?case
  proof (cases "?L - T \<le> T")
    case True
    let ?t = "s\<lparr>buffer := write_mem (buffer s) T ?rem, total_bytes_received := int ?L\<rparr>"
    have r: "recv [Data ?rem] (int T) = (int (?L - T), ?rem, [])"
      using True by simp
    have ne: "int (?L - T) \<noteq> 0" "int (?L - T) \<noteq> - 1" using less.prems(6) by simp_all
    have sum: "int T + int (?L - T) = int ?L" using less.prems(6) by simp
    have unfold: "receive_loop hr heap s [Data ?rem] =
        (case inner_loop hr heap ?t of
           Break s' \<Rightarrow> receive_loop hr heap s' []
         | AllDone s' \<Rightarrow> (Returned EXIT_SUCCESS, s')
         | Fault \<Rightarrow> (Undefined, s))"
    proof -
      have cap: "int (2 * T) - int T = int T" by simp
      have ok: "\<not> (int T < 0 \<or> int (2 * T) < int ?L)"
        using True by simp
      show ?thesis
        by (subst receive_loop.simps)
           (simp only: sz tot cap r prod.case ne ok if_False sum nat_int)
    qed
    have "fills (write_mem (buffer s) T (take (?L - T) (drop T ?F))) (2 * T) (take (T + (?L - T)) ?F)"
      using f _ _ by (rule fills_write) (use less.prems(6) True in simp_all)
    then have ft: "fills (buffer ?t) (2 * T) ?F"
      using less.prems(6) by simp
    have "\<exists>s'. (inner_loop hr heap ?t = AllDone s' \<or> inner_loop hr heap ?t = Break s') \<and>
              handled s' = handled ?t @ [p]"
    proof (rule complete_step [OF ft])
      show "buffer_size ?t = int (2 * T)" using sz by simp
      show "total_bytes_received ?t = int ?L" by simp
      show "?L \<le> 2 * T" using True by simp
      show "?L < 2 * T \<or> 0 < length p"
        using big_frame_payload [of p] less.prems(5,6,7) by simp
      show "length p < 1000000000" by (rule less.prems(7))
      show "NUL \<notin> set p" by (rule less.prems(8))
    qed
    then obtain s' where s': "inner_loop hr heap ?t = AllDone s' \<or> inner_loop hr heap ?t = Break s'"
      "handled s' = [p]"
      using less.prems(4) by auto
    from s'(1) have "receive_loop hr heap s [Data ?rem] = (Returned EXIT_SUCCESS, s')"
      unfolding unfold by (auto simp: receive_loop_closed)
    with s'(2) show ?thesis by simp
  next
    case False
    let ?t = "s\<lparr>buffer := write_mem (buffer s) T (take T ?rem),
                 total_bytes_received := int (2 * T)\<rparr>"
    let ?u = "?t\<lparr>buffer := realloc (buffer ?t) (2 * T) heap, buffer_size := int (2 * (2 * T))\<rparr>"
    have Tpos: "0 < T" using less.prems(5) by simp
    have dd: "drop T ?rem = drop (2 * T) ?F"
      by (simp only: drop_drop mult_2)
    have "recv [Data ?rem] (int T) = (int T, take T ?rem, [Data (drop T ?rem)])"
      using False by simp
    then have r: "recv [Data ?rem] (int T) = (int T, take T ?rem, [Data (drop (2 * T) ?F)])"
      by (simp only: dd)
    have ne: "int T \<noteq> 0" "int T \<noteq> - 1" using Tpos by simp_all
    have unfold: "receive_loop hr heap s [Data ?rem] =
        (case inner_loop hr heap ?t of
           Break s' \<Rightarrow> receive_loop hr heap s' [Data (drop (2 * T) ?F)]
         | AllDone s' \<Rightarrow> (Returned EXIT_SUCCESS, s')
         | Fault \<Rightarrow> (Undefined, s))"
    proof -
      have cap: "int (2 * T) - int T = int T" by simp
      have ok: "\<not> (int T < 0 \<or> int (2 * T) < int (2 * T))"
        by simp
      have sum: "int T + int T = int (2 * T)" by simp
      show ?thesis
        by (subst receive_loop.simps)
           (simp only: sz tot cap r prod.case ne ok if_False sum nat_int)
    qed
    have "fills (write_mem (buffer s) T (take T (drop T ?F))) (2 * T) (take (T + T) ?F)"
      using f _ _ by (rule fills_write) (use less.prems(6) in simp_all)
    then have ft: "fills (buffer ?t) (2 * T) (take (2 * T) ?F)"
      by (simp add: mult_2 [symmetric])
    have big: "2 * T < ?L" using False by simp
    have grow: "inner_loop hr heap ?t = Break ?u"
    proof (rule grow_step [OF ft])
      show "buffer_size ?t = int (2 * T)" using sz by simp
      show "total_bytes_received ?t = int (2 * T)" by simp
      show "1024 \<le> 2 * T" using less.prems(5) by simp
      show "2 * T < ?L" by (rule big)
      show "length p < 1000000000" by (rule less.prems(7))
    qed
    have eq: "receive_loop hr heap s [Data ?rem] = receive_loop hr heap ?u [Data (drop (2 * T) ?F)]"
      unfolding unfold grow by simp
    have fu: "fills (buffer ?u) (2 * (2 * T)) (take (2 * T) ?F)"
      using fills_realloc [OF ft less.prems(9)] big by simp
    have "fst (receive_loop hr heap ?u [Data (drop (2 * T) ?F)]) = Returned EXIT_SUCCESS \<and>
         handled (snd (receive_loop hr heap ?u [Data (drop (2 * T) ?F)])) = [p]"
    proof (rule less.hyps)
      show "?L - 2 * T < ?L - T" using big Tpos by simp
      show "buffer_size ?u = int (2 * (2 * T))" by simp
      show "total_bytes_received ?u = int (2 * T)" by simp
      show "fills (buffer ?u) (2 * (2 * T)) (take (2 * T) ?F)" by (rule fu)
      show "handled ?u = []" using less.prems(4) by simp
      show "1024 \<le> 2 * T" using less.prems(5) by simp
      show "2 * T < ?L" by (rule big)
      show "length p < 1000000000" by (rule less.prems(7))
      show "NUL \<notin> set p" by (rule less.prems(8))
      show "\<forall>i. heap i = NUL" by (rule less.prems(9))
    qed
    then show ?thesis unfolding eq .
  qed
qed

lemma receive_large_frame:
  assumes "\<forall>i. heap i = NUL" and "NUL \<notin> set p"
    and "1024 < length (frame p)" and "length p < 1000000000"
  shows "fst (tcp_client_receive_response hr heap [Data (frame p)]) = Returned EXIT_SUCCESS \<and>
         handled (snd (tcp_client_receive_response hr heap [Data (frame p)])) = [p]"
proof -
  let ?F = "frame p"
  let ?s = "\<lparr>buffer = heap, buffer_size = 1024, total_bytes_received = 0, handled = []\<rparr>"
  let ?t = "?s\<lparr>buffer := write_mem heap 0 (take 1024 ?F), total_bytes_received := 1024\<rparr>"
  let ?u = "?t\<lparr>buffer := realloc (buffer ?t) 1024 heap, buffer_size := int (2 * 1024)\<rparr>"
  have r: "recv [Data ?F] 1024 = (1024, take 1024 ?F, [Data (drop 1024 ?F)])"
    using assms(3) by simp
  have unfold: "receive_loop hr heap ?s [Data ?F] =
        (case inner_loop hr heap ?t of
           Break s' \<Rightarrow> receive_loop hr heap s' [Data (drop 1024 ?F)]
         | AllDone s' \<Rightarrow> (Returned EXIT_SUCCESS, s')
         | Fault \<Rightarrow> (Undefined, ?s))"
    by (subst receive_loop.simps) (simp add: r del: recv.simps)
  have h0: "fills heap 1024 (take 0 ?F)" using assms(1) by (simp add: fills_def)
  have "fills (write_mem heap 0 (take 1024 (drop 0 ?F))) 1024 (take (0 + 1024) ?F)"
    using h0 by (rule fills_write) simp_all
  then have ft: "fills (buffer ?t) 1024 (take 1024 ?F)" by simp
  have grow: "inner_loop hr heap ?t = Break ?u"
    by (rule grow_step [OF ft]) (use assms(3,4) in simp_all)
  have fu: "fills (buffer ?u) (2 * 1024) (take 1024 ?F)"
    using fills_realloc [OF ft assms(1)] by simp
  have "fst (receive_loop hr heap ?u [Data (drop 1024 ?F)]) = Returned EXIT_SUCCESS \<and>
         handled (snd (receive_loop hr heap ?u [Data (drop 1024 ?F)])) = [p]"
    by (rule receive_loop_growing [OF _ _ fu]) (use assms in simp_all)
  then show ?thesis
    unfolding tcp_client_receive_response_def DEFAULT_BUFFER_SIZE_def unfold grow by simp
qed

lemma receive_small_frame:
  assumes "\<forall>i. heap i = NUL" and "NUL \<notin> set p"
    and "length (frame p) \<le> 1024" and "length p < 1000000000"
  shows "fst (tcp_client_receive_response hr heap [Data (frame p)]) = Returned EXIT_SUCCESS \<and>
         handled (snd (tcp_client_receive_response hr heap [Data (frame p)])) = [p]"
proof -
  let ?F = "frame p"
  let ?L = "length ?F"
  let ?s = "\<lparr>buffer = heap, buffer_size = 1024, total_bytes_received = 0, handled = []\<rparr>"
  let ?t = "?s\<lparr>buffer := write_mem heap 0 ?F, total_bytes_received := int ?L\<rparr>"
  have r: "recv [Data ?F] 1024 = (int ?L, ?F, [])"
    using assms(3) by simp
  have ne: "?F \<noteq> []" by (rule frame_nonempty)
  have unfold: "receive_loop hr heap ?s [Data ?F] =
        (case inner_loop hr heap ?t of
           Break s' \<Rightarrow> receive_loop hr heap s' []
         | AllDone s' \<Rightarrow> (Returned EXIT_SUCCESS, s')
         | Fault \<Rightarrow> (Undefined, ?s))"
    using ne assms(3) by (subst receive_loop.simps) (simp add: r del: recv.simps)
  have h0: "fills heap 1024 (take 0 ?F)" using assms(1) by (simp add: fills_def)
  have "fills (write_mem heap 0 (take ?L (drop 0 ?F))) 1024 (take (0 + ?L) ?F)"
    using h0 by (rule fills_write) (use assms(3) in simp_all)
  then have ft: "fills (buffer ?t) 1024 ?F" by simp
  have "\<exists>s'. (inner_loop hr heap ?t = AllDone s' \<or> inner_loop hr heap ?t = Break s') \<and>
              handled s' = handled ?t @ [p]"
  proof (rule complete_step [OF ft])
    show "buffer_size ?t = int 1024" by simp
    show "total_bytes_received ?t = int ?L" by simp
    show "?L \<le> 1024" by (rule assms(3))
    show "?L < 1024 \<or> 0 < length p"
    proof (cases "?L < 1024")
      case False
      then have "?L = 1024" using assms(3) by simp
      moreover have "length (dec (length p)) \<le> 9" using assms(4) by (rule digits_le_9)
      ultimately have "length p \<noteq> 0" by (auto simp: frame_length)
      then show ?thesis by simp
    qed simp
    show "length p < 1000000000" by (rule assms(4))
    show "NUL \<notin> set p" by (rule assms(2))
  qed
  then obtain s' where s': "inner_loop hr heap ?t = AllDone s' \<or> inner_loop hr heap ?t = Break s'"
      "handled s' = [p]"
    by auto
  from s'(1) have "receive_loop hr heap ?s [Data ?F] = (Returned EXIT_SUCCESS, s')"
    unfolding unfold by (auto simp: receive_loop_closed)
  with s'(2) show ?thesis
    unfolding tcp_client_receive_response_def DEFAULT_BUFFER_SIZE_def by simp
qed

text \<open>
  Growth keeps the frame. One frame \<open><length> <payload>\<close> of any size, with
  a payload of fewer than 1,000,000,000 bytes and no NUL byte, held whole by the connection and
  read into zero-filled memory, reaches the handler exactly once, as its payload, however many
  times the buffer had to be doubled, and \<^verbatim>\<open>tcp_client_receive_response\<close> returns
  \<^verbatim>\<open>EXIT_SUCCESS\<close>: the handler's answer ends the loop, or the connection is at its end at
  the next \<^verbatim>\<open>recv\<close>.
\<close>

theorem receive_frame_of_any_size:
  assumes "\<forall>i. heap i = NUL" and "NUL \<notin> set p" and "length p < 1000000000"
  shows "fst (tcp_client_receive_response hr heap [Data (frame p)]) = Returned EXIT_SUCCESS \<and>
         handled (snd (tcp_client_receive_response hr heap [Data (frame p)])) = [p]"
proof (cases "length (frame p) \<le> 1024")
  case True
  with assms show ?thesis by (intro receive_small_frame)
next
  case False
  then have "1024 < length (frame p)" by simp
  with assms show ?thesis by (intro receive_large_frame)
qed

text \<open>
  The property at a payload of 2000 bytes, which needs one doubling of the buffer.
\<close>

theorem receive_frame_of_any_size_witness:
  "(\<forall>i. zero_heap i = NUL) \<and> NUL \<notin> set (replicate 2000 (CHR ''x'')) \<and>
   length (replicate 2000 (CHR ''x'')) < 1000000000 \<and>
   fst (tcp_client_receive_response (\<lambda>tr. True) zero_heap
          [Data (frame (replicate 2000 (CHR ''x'')))]) = Returned EXIT_SUCCESS \<and>
   handled (snd (tcp_client_receive_response (\<lambda>tr. True) zero_heap
          [Data (frame (replicate 2000 (CHR ''x'')))])) = [replicate 2000 (CHR ''x'')]"
proof -
  have z: "\<forall>i. zero_heap i = NUL" by (simp add: zero_heap_def)
  have n: "NUL \<notin> set (replicate 2000 (CHR ''x''))" by simp
  have l: "length (replicate 2000 (CHR ''x'')) < 1000000000" by simp
  note r = receive_frame_of_any_size
    [where heap = zero_heap and p = "replicate 2000 (CHR ''x'')" and hr = "\<lambda>tr. True", OF z n l]
  show ?thesis
    by (rule conjI [OF z conjI [OF n conjI [OF l r]]])
qed

end
